theory Spec2Isabelle
  imports Complex_Main "HOL-Library.Word"
begin

unbundle bit_operations_syntax

section \<open>Finite-field engine: GF(256) by discrete-log and exponent tables\<close>

text \<open>
  Source: the Shamir module of the frontend (\<^verbatim>\<open>vite.config.ts\<close>, second document).
  A \<^verbatim>\<open>Uint8Array\<close> is a list of bytes; a thrown \<^verbatim>\<open>Error\<close> is the left
  summand of a sum type and carries the message of the source.
\<close>

type_synonym byte = "8 word"

datatype error = Error string | RangeError string

subsection \<open>initTables\<close>

text \<open>
  \<^verbatim>\<open>
  let x = 1
  for (let i = 0; i < 255; i++) {
      EXP_TABLE[i] = x
      LOG_TABLE[x] = i
      x = x ^ (x << 1)
      if (x >= 256) { x ^= 0x11b }
  }
  EXP_TABLE[255] = EXP_TABLE[0]
  \<close>
  The loop variable \<open>x\<close> is a JavaScript number (it reaches values up to 511 before the
  reduction), so it is a \<open>nat\<close>; a store into a \<^verbatim>\<open>Uint8Array\<close> keeps the low 8 bits.
\<close>

definition gstep :: "nat \<Rightarrow> nat" where
  "gstep x = (let x1 = x XOR push_bit 1 x in if x1 \<ge> 256 then x1 XOR 0x11b else x1)"

definition initStep :: "nat \<Rightarrow> nat \<times> byte list \<times> byte list \<Rightarrow> nat \<times> byte list \<times> byte list" where
  "initStep i s = (case s of (x, et, lt) \<Rightarrow> (gstep x, et[i := of_nat x], lt[x := of_nat i]))"

definition initTables :: "byte list \<times> byte list" where
  "initTables = (case fold initStep [0..<255] (1, replicate 256 0, replicate 256 0) of
      (x, et, lt) \<Rightarrow> (et[255 := et ! 0], lt))"

definition EXP_TABLE :: "byte list" where
  "EXP_TABLE = fst initTables"

definition LOG_TABLE :: "byte list" where
  "LOG_TABLE = snd initTables"

subsection \<open>gfMul, gfDiv\<close>

definition gfMul :: "byte \<Rightarrow> byte \<Rightarrow> byte" where
  "gfMul a b = (if a = 0 \<or> b = 0 then 0
     else EXP_TABLE ! ((unat (LOG_TABLE ! unat a) + unat (LOG_TABLE ! unat b)) mod 255))"

definition gfDiv :: "byte \<Rightarrow> byte \<Rightarrow> error + byte" where
  "gfDiv a b = (if b = 0 then Inl (Error ''Division by zero in GF(256)'')
     else if a = 0 then Inr 0
     else Inr (EXP_TABLE ! nat ((uint (LOG_TABLE ! unat a) - uint (LOG_TABLE ! unat b) + 255) mod 255)))"

subsection \<open>evaluatePolynomial\<close>

text \<open>
  \<^verbatim>\<open>
  let result = 0
  for (let i = coefficients.length - 1; i >= 0; i--) {
      result = gfMul(result, x) ^ coefficients[i]
  }
  \<close>
\<close>

definition evaluatePolynomial :: "byte list \<Rightarrow> byte \<Rightarrow> byte" where
  "evaluatePolynomial coefficients x =
     fold (\<lambda>i result. gfMul result x XOR coefficients ! i) (rev [0..<length coefficients]) 0"

subsection \<open>splitSecret\<close>

text \<open>
  \<^verbatim>\<open>crypto.getRandomValues\<close> is the only effect of \<^verbatim>\<open>splitSecret\<close>. The random source
  is an explicit state, the stream of bytes still to be drawn; a call for \<open>m\<close> bytes
  returns the first \<open>m\<close> of them and the rest of the stream.
\<close>

type_synonym rng = "nat \<Rightarrow> byte"

definition getRandomValues :: "nat \<Rightarrow> rng \<Rightarrow> byte list \<times> rng" where
  "getRandomValues m r = (map r [0..<m], \<lambda>i. r (i + m))"

text \<open>
  One round of the loop over \<^verbatim>\<open>byteIdx\<close>: the coefficient array has length \<open>k\<close>, its
  element 0 is the secret byte and \<^verbatim>\<open>coefficients.subarray(1)\<close> is filled from the
  random source; then \<^verbatim>\<open>shares[i][byteIdx + 1] = evaluatePolynomial(coefficients, i + 1)\<close>
  for every \<open>i < n\<close>.
\<close>

definition splitByte :: "byte list \<Rightarrow> nat \<Rightarrow> nat \<Rightarrow> nat \<Rightarrow> byte list list \<times> rng \<Rightarrow> byte list list \<times> rng" where
  "splitByte secret n k byteIdx st = (case st of (shares, r) \<Rightarrow>
     (case getRandomValues (k - 1) r of (rs, r') \<Rightarrow>
        (let coefficients = (replicate k 0)[0 := secret ! byteIdx];
             coefficients = take 1 coefficients @ rs
         in (fold (\<lambda>i sh. sh[i := (sh ! i)[byteIdx + 1 := evaluatePolynomial coefficients (of_nat (i + 1))]])
               [0..<n] shares, r'))))"

definition splitSecret :: "byte list \<Rightarrow> int \<Rightarrow> int \<Rightarrow> rng \<Rightarrow> error + byte list list" where
  "splitSecret secret n k r =
     (if k > n then Inl (Error ''Threshold must be <= number of shares'')
      else if k < 2 then Inl (Error ''Threshold must be >= 2'')
      else if n > 255 then Inl (Error ''Max 255 shares'')
      else Inr (fst (fold (splitByte secret (nat n) (nat k)) [0..<length secret]
             (map (\<lambda>i. (replicate (length secret + 1) 0)[0 := of_nat (i + 1)]) [0..<nat n], r))))"

subsection \<open>reconstructSecret\<close>

text \<open>
  \<^verbatim>\<open>reconstructSecret\<close> checks nothing but the number of shares, so it can read a typed
  array out of range; such a read is \<^verbatim>\<open>undefined\<close>. A value read from a share is
  therefore a \<open>byte option\<close>, \<open>None\<close> for \<^verbatim>\<open>undefined\<close>.
\<close>

definition byteAt :: "byte list \<Rightarrow> nat \<Rightarrow> byte option" where
  "byteAt s i = (if i < length s then Some (s ! i) else None)"

text \<open>
  \<^verbatim>\<open>gfMul\<close> and \<^verbatim>\<open>gfDiv\<close> on such values. The comparisons \<^verbatim>\<open>a === 0\<close>, \<^verbatim>\<open>b === 0\<close>
  are false for \<^verbatim>\<open>undefined\<close>; a table read at \<^verbatim>\<open>undefined\<close> is \<^verbatim>\<open>undefined\<close>, the sum is
  \<^verbatim>\<open>NaN\<close> and the final table read at \<^verbatim>\<open>NaN\<close> is \<^verbatim>\<open>undefined\<close> again. The operator
  \<^verbatim>\<open>^\<close> converts \<^verbatim>\<open>undefined\<close> to 0.
\<close>

definition gfMulU :: "byte option \<Rightarrow> byte option \<Rightarrow> byte option" where
  "gfMulU a b = (if a = Some 0 \<or> b = Some 0 then Some 0
     else case (a, b) of (Some x, Some y) \<Rightarrow> Some (gfMul x y) | _ \<Rightarrow> None)"

definition gfDivU :: "byte option \<Rightarrow> byte \<Rightarrow> error + byte option" where
  "gfDivU a b = (if b = 0 then Inl (Error ''Division by zero in GF(256)'')
     else case a of None \<Rightarrow> Inr None
          | Some x \<Rightarrow> (case gfDiv x b of Inl e \<Rightarrow> Inl e | Inr c \<Rightarrow> Inr (Some c)))"

definition toInt32 :: "byte option \<Rightarrow> byte" where
  "toInt32 a = (case a of None \<Rightarrow> 0 | Some x \<Rightarrow> x)"

text \<open>The loop over \<open>j\<close>: numerator and denominator of the Lagrange coefficient of share \<open>i\<close>.\<close>

definition lagrangeNumDen :: "byte option list \<Rightarrow> nat \<Rightarrow> byte option \<times> byte" where
  "lagrangeNumDen xs i =
     fold (\<lambda>j (numerator, denominator).
             if i \<noteq> j
             then (gfMulU numerator (xs ! j), gfMul denominator (toInt32 (xs ! i) XOR toInt32 (xs ! j)))
             else (numerator, denominator))
          [0..<length xs] (Some 1, 1)"

text \<open>The loop over \<open>i\<close> for one byte position; a throw of \<^verbatim>\<open>gfDiv\<close> ends it.\<close>

definition interpolateByte :: "byte list list \<Rightarrow> byte option list \<Rightarrow> nat \<Rightarrow> error + byte" where
  "interpolateByte shares xs byteIdx =
     fold (\<lambda>i acc. case acc of Inl e \<Rightarrow> Inl e
             | Inr result \<Rightarrow>
                 (case lagrangeNumDen xs i of (numerator, denominator) \<Rightarrow>
                    (case gfDivU numerator denominator of Inl e \<Rightarrow> Inl e
                     | Inr lagrangeCoeff \<Rightarrow>
                         Inr (result XOR toInt32 (gfMulU (byteAt (shares ! i) (byteIdx + 1)) lagrangeCoeff)))))
          [0..<length shares] (Inr 0)"

definition reconstructSecret :: "byte list list \<Rightarrow> error + byte list" where
  "reconstructSecret shares =
     (if length shares < 2 then Inl (Error ''Need at least 2 shares'')
      else if length (shares ! 0) = 0 then Inl (RangeError ''Invalid typed array length: -1'')
      else (let secretLength = length (shares ! 0) - 1;
                xs = map (\<lambda>s. byteAt s 0) shares
            in fold (\<lambda>byteIdx acc. case acc of Inl e \<Rightarrow> Inl e
                       | Inr secret \<Rightarrow>
                           (case interpolateByte shares xs byteIdx of Inl e \<Rightarrow> Inl e
                            | Inr result \<Rightarrow> Inr (secret[byteIdx := result])))
                 [0..<secretLength] (Inr (replicate secretLength 0))))"


section \<open>The tables computed by initTables\<close>

text \<open>The successive values of the loop variable \<open>x\<close>: the powers of the generator 3.\<close>

definition G :: "nat list" where
  "G = [
     1, 3, 5, 15, 17, 51, 85, 255, 26, 46, 114, 150, 161, 248, 19, 53, 95, 225, 
     56, 72, 216, 115, 149, 164, 247, 2, 6, 10, 30, 34, 102, 170, 229, 52, 92, 
     228, 55, 89, 235, 38, 106, 190, 217, 112, 144, 171, 230, 49, 83, 245, 4, 
     12, 20, 60, 68, 204, 79, 209, 104, 184, 211, 110, 178, 205, 76, 212, 103, 
     169, 224, 59, 77, 215, 98, 166, 241, 8, 24, 40, 120, 136, 131, 158, 185, 
     208, 107, 189, 220, 127, 129, 152, 179, 206, 73, 219, 118, 154, 181, 196, 
     87, 249, 16, 48, 80, 240, 11, 29, 39, 105, 187, 214, 97, 163, 254, 25, 43, 
     125, 135, 146, 173, 236, 47, 113, 147, 174, 233, 32, 96, 160, 251, 22, 58, 
     78, 210, 109, 183, 194, 93, 231, 50, 86, 250, 21, 63, 65, 195, 94, 226, 61, 
     71, 201, 64, 192, 91, 237, 44, 116, 156, 191, 218, 117, 159, 186, 213, 100, 
     172, 239, 42, 126, 130, 157, 188, 223, 122, 142, 137, 128, 155, 182, 193, 
     88, 232, 35, 101, 175, 234, 37, 111, 177, 200, 67, 197, 84, 252, 31, 33, 
     99, 165, 244, 7, 9, 27, 45, 119, 153, 176, 203, 70, 202, 69, 207, 74, 222, 
     121, 139, 134, 145, 168, 227, 62, 66, 198, 81, 243, 14, 18, 54, 90, 238, 
     41, 123, 141, 140, 143, 138, 133, 148, 167, 242, 13, 23, 57, 75, 221, 124, 
     132, 151, 162, 253, 28, 36, 108, 180, 199, 82, 246]"

lemma G_length: "length G = 255"
  unfolding G_def by simp

lemma G_chain: "map gstep G = tl G @ [1]"
  unfolding G_def by (simp add: gstep_def)

lemma G_distinct: "distinct G"
  unfolding G_def by simp

lemma G_range: "list_all (\<lambda>x. 0 < x \<and> x < 256) G"
  unfolding G_def by simp

lemma G_0: "G ! 0 = 1"
  unfolding G_def by simp


lemma G_nth_range: "i < 255 \<Longrightarrow> 0 < G ! i \<and> G ! i < 256"
  using G_range G_length by (simp add: list_all_length)

lemma G_step: 
  assumes "i < 255" shows "gstep (G ! i) = (G @ [1]) ! Suc i"
proof -
  have ne: "G \<noteq> []" using G_length by auto
  have "gstep (G ! i) = map gstep G ! i" using assms G_length by simp
  also have "\<dots> = (tl G @ [1]) ! i" by (simp only: G_chain)
  also have "\<dots> = tl (G @ [1]) ! i" using ne by simp
  also have "\<dots> = (G @ [1]) ! Suc i" using assms G_length by (simp add: nth_tl)
  finally show ?thesis .
qed

definition tables_inv :: "nat \<Rightarrow> nat \<times> byte list \<times> byte list \<Rightarrow> bool" where
  "tables_inv m s = (case s of (x, et, lt) \<Rightarrow>
     length et = 256 \<and> length lt = 256 \<and> x = (G @ [1]) ! m \<and>
     (\<forall>i<m. et ! i = of_nat (G ! i)) \<and> (\<forall>i<m. lt ! (G ! i) = of_nat i))"

lemma tables_inv_fold:
  "m \<le> 255 \<Longrightarrow> tables_inv m (fold initStep [0..<m] (1, replicate 256 0, replicate 256 0))"
proof (induction m)
  case 0
  show ?case using G_0 G_length by (simp add: tables_inv_def nth_append)
next
  case (Suc m)
  then have m: "m < 255" by simp
  obtain x et lt where st: "fold initStep [0..<m] (1, replicate 256 0, replicate 256 0) = (x, et, lt)"
    by (cases "fold initStep [0..<m] (1, replicate 256 0, replicate 256 0)") auto
  from Suc.IH m st have inv: "length et = 256" "length lt = 256" "x = G ! m"
    "\<forall>i<m. et ! i = of_nat (G ! i)" "\<forall>i<m. lt ! (G ! i) = of_nat i"
    using G_length by (simp_all add: tables_inv_def nth_append)
  have xr: "x < 256" using inv(3) G_nth_range[OF m] by simp
  have d: "\<And>i. i < m \<Longrightarrow> G ! i \<noteq> G ! m"
    using G_distinct m G_length by (simp add: nth_eq_iff_index_eq)
  have "fold initStep [0..<Suc m] (1, replicate 256 0, replicate 256 0)
        = (gstep x, et[m := of_nat x], lt[x := of_nat m])"
    using st by (simp add: initStep_def del: One_nat_def)
  moreover have "tables_inv (Suc m) (gstep x, et[m := of_nat x], lt[x := of_nat m])"
  proof -
    have e: "\<forall>i<Suc m. (et[m := of_nat x]) ! i = of_nat (G ! i)"
      using inv m by (auto simp: less_Suc_eq nth_list_update)
    have l: "\<forall>i<Suc m. (lt[x := of_nat m]) ! (G ! i) = of_nat i"
    proof (intro allI impI)
      fix i assume "i < Suc m"
      then consider "i = m" | "i < m" by linarith
      then show "(lt[x := of_nat m]) ! (G ! i) = of_nat i"
      proof cases
        case 1 then show ?thesis using inv xr by simp
      next
        case 2 then show ?thesis using inv d[OF 2] by (simp add: nth_list_update)
      qed
    qed
    show ?thesis
      unfolding tables_inv_def using inv(1,2) e l G_step[OF m] inv(3) by simp
  qed
  ultimately show ?case by simp
qed

lemma EXP_TABLE_nth: "i < 255 \<Longrightarrow> EXP_TABLE ! i = of_nat (G ! i)"
  using tables_inv_fold[of 255]
  by (auto simp: EXP_TABLE_def initTables_def tables_inv_def split: prod.splits)

lemma LOG_TABLE_nth: "i < 255 \<Longrightarrow> LOG_TABLE ! (G ! i) = of_nat i"
  using tables_inv_fold[of 255]
  by (auto simp: LOG_TABLE_def initTables_def tables_inv_def split: prod.splits)

lemma G_surj: 
  fixes a :: byte
  assumes "a \<noteq> 0" shows "\<exists>i<255. G ! i = unat a"
proof -
  have sub: "set G \<subseteq> {1..255}"
    using G_range by (auto simp: list_all_iff)
  have "card (set G) = 255" using G_distinct G_length by (simp add: distinct_card)
  then have "set G = {1..255}" using sub by (intro card_subset_eq) auto
  moreover have "unat a \<in> {1..255}"
  proof -
    have "unat a < 256" using unsigned_less[of a, where 'a=nat] by simp
    moreover have "unat a \<noteq> 0" using assms by (simp add: unat_eq_0)
    ultimately show ?thesis by auto
  qed
  ultimately have "unat a \<in> set G" by simp
  then show ?thesis using G_length by (auto simp: in_set_conv_nth)
qed

definition mul3 :: "byte \<Rightarrow> byte" where
  "mul3 w = w XOR push_bit 1 w XOR (if bit w 7 then 0x1b else 0)"

lemma G_mul3: "map (\<lambda>x. mul3 (of_nat x)) G = map of_nat (tl G @ [1])"
  unfolding G_def by (simp add: mul3_def)

lemma mul3_xor: "mul3 (a XOR b) = mul3 a XOR mul3 b"
  by (cases "bit a 7"; cases "bit b 7") (simp_all add: mul3_def bit_xor_iff ac_simps)

definition dlog :: "byte \<Rightarrow> nat" where
  "dlog a = unat (LOG_TABLE ! unat a)"

lemma unat_of_nat_G: "i < 255 \<Longrightarrow> unat (of_nat (G ! i) :: byte) = G ! i"
  using G_nth_range[of i] by (simp add: unat_of_nat)

lemma dlog_EXP: 
  assumes "i < 255" shows "dlog (EXP_TABLE ! i) = i"
proof -
  have "dlog (EXP_TABLE ! i) = unat (LOG_TABLE ! (G ! i))"
    using assms by (simp only: dlog_def EXP_TABLE_nth unat_of_nat_G)
  also have "\<dots> = unat (of_nat i :: byte)" using assms by (simp only: LOG_TABLE_nth)
  also have "\<dots> = i" using assms by (simp add: unat_of_nat)
  finally show ?thesis .
qed

lemma EXP_nonzero: "i < 255 \<Longrightarrow> EXP_TABLE ! i \<noteq> 0"
  using unat_of_nat_G[of i] G_nth_range[of i] by (auto simp: EXP_TABLE_nth)

lemma EXP_dlog: 
  assumes "a \<noteq> 0" shows "dlog a < 255 \<and> EXP_TABLE ! dlog a = a"
proof -
  from G_surj[OF assms] obtain i where i: "i < 255" "G ! i = unat a" by blast
  then have "dlog a = i" by (simp add: dlog_def LOG_TABLE_nth[OF i(1), unfolded i(2)] unat_of_nat)
  moreover have "EXP_TABLE ! i = a" using i by (simp add: EXP_TABLE_nth)
  ultimately show ?thesis using i by simp
qed

lemma EXP_Suc: 
  assumes "i < 255" shows "EXP_TABLE ! (Suc i mod 255) = mul3 (EXP_TABLE ! i)"
proof -
  have ne: "G \<noteq> []" using G_length by auto
  have "mul3 (EXP_TABLE ! i) = map (\<lambda>x. mul3 (of_nat x)) G ! i"
    using assms G_length by (simp add: EXP_TABLE_nth)
  also have "\<dots> = map of_nat (tl G @ [1]) ! i" by (simp only: G_mul3)
  also have "\<dots> = of_nat ((tl G @ [1]) ! i)" using assms G_length by (subst nth_map) simp_all
  also have "(tl G @ [1]) ! i = (if Suc i < 255 then G ! Suc i else 1)"
    using assms G_length ne by (auto simp: nth_append nth_tl)
  also have "of_nat (if Suc i < 255 then G ! Suc i else 1) = EXP_TABLE ! (Suc i mod 255)"
    using assms G_0 by (auto simp: EXP_TABLE_nth not_less less_Suc_eq_le dest!: le_antisym)
  finally show ?thesis by simp
qed

lemma gfMul_nz: "a \<noteq> 0 \<Longrightarrow> b \<noteq> 0 \<Longrightarrow> gfMul a b = EXP_TABLE ! ((dlog a + dlog b) mod 255)"
  by (simp add: gfMul_def dlog_def)

lemma gfMul_zero [simp]: "gfMul 0 b = 0" "gfMul a 0 = 0"
  by (simp_all add: gfMul_def)

lemma gfMul_nonzero: "a \<noteq> 0 \<Longrightarrow> b \<noteq> 0 \<Longrightarrow> gfMul a b \<noteq> 0"
  by (simp add: gfMul_nz EXP_nonzero)

lemma gfMul_eq_0_iff: "gfMul a b = 0 \<longleftrightarrow> a = 0 \<or> b = 0"
  using gfMul_nonzero[of a b] by auto

lemma dlog_gfMul: "a \<noteq> 0 \<Longrightarrow> b \<noteq> 0 \<Longrightarrow> dlog (gfMul a b) = (dlog a + dlog b) mod 255"
  by (simp add: gfMul_nz dlog_EXP)

lemma gfMul_commute: "gfMul a b = gfMul b a"
  by (simp add: gfMul_def add.commute disj_commute)

lemma gfMul_assoc: "gfMul (gfMul a b) c = gfMul a (gfMul b c)"
proof (cases "a = 0 \<or> b = 0 \<or> c = 0")
  case True
  then show ?thesis by auto
next
  case False
  then have nz: "a \<noteq> 0" "b \<noteq> 0" "c \<noteq> 0" by auto
  have "gfMul (gfMul a b) c = EXP_TABLE ! (((dlog a + dlog b) mod 255 + dlog c) mod 255)"
    using nz by (simp add: gfMul_nz[OF gfMul_nonzero] dlog_gfMul)
  also have "((dlog a + dlog b) mod 255 + dlog c) mod 255 = (dlog a + (dlog b + dlog c) mod 255) mod 255"
    by (simp add: mod_simps add.assoc)
  also have "EXP_TABLE ! \<dots> = gfMul a (gfMul b c)"
    using nz by (simp add: gfMul_nz[OF _ gfMul_nonzero] dlog_gfMul)
  finally show ?thesis .
qed

lemma dlog_1: "dlog 1 = 0"
  using dlog_EXP[of 0] G_0 by (simp add: EXP_TABLE_nth)

lemma gfMul_one [simp]: "gfMul 1 a = a" "gfMul a 1 = a"
proof -
  show "gfMul 1 a = a"
    by (cases "a = 0") (simp_all add: gfMul_nz dlog_1 EXP_dlog)
  then show "gfMul a 1 = a" by (simp add: gfMul_commute)
qed

lemma mul3_zero [simp]: "mul3 0 = 0"
  by (simp add: mul3_def)

lemma mul3_pow_zero [simp]: "(mul3 ^^ n) 0 = 0"
  by (induction n) simp_all

lemma mul3_pow_xor: "(mul3 ^^ n) (a XOR b) = (mul3 ^^ n) a XOR (mul3 ^^ n) b"
  by (induction n) (simp_all add: mul3_xor)

lemma mul3_pow_EXP: "i < 255 \<Longrightarrow> (mul3 ^^ n) (EXP_TABLE ! i) = EXP_TABLE ! ((i + n) mod 255)"
proof (induction n)
  case 0
  then show ?case by simp
next
  case (Suc n)
  have "(mul3 ^^ Suc n) (EXP_TABLE ! i) = mul3 (EXP_TABLE ! ((i + n) mod 255))"
    using Suc by simp
  also have "\<dots> = EXP_TABLE ! (Suc ((i + n) mod 255) mod 255)"
    by (simp add: EXP_Suc)
  also have "Suc ((i + n) mod 255) mod 255 = (i + Suc n) mod 255"
    by (simp add: mod_Suc_eq)
  finally show ?case .
qed

lemma gfMul_as_pow: 
  assumes "a \<noteq> 0" shows "gfMul a b = (mul3 ^^ dlog a) b"
proof (cases "b = 0")
  case True
  then show ?thesis by simp
next
  case False
  from EXP_dlog[OF False] have lb: "dlog b < 255" and b: "EXP_TABLE ! dlog b = b"
    by simp_all
  have "(mul3 ^^ dlog a) (EXP_TABLE ! dlog b) = EXP_TABLE ! ((dlog b + dlog a) mod 255)"
    by (rule mul3_pow_EXP[OF lb])
  then have "(mul3 ^^ dlog a) b = EXP_TABLE ! ((dlog b + dlog a) mod 255)"
    by (simp only: b)
  then show ?thesis using assms False by (simp add: gfMul_nz add.commute)
qed

lemma gfMul_xor_right: "gfMul a (b XOR c) = gfMul a b XOR gfMul a c"
  by (cases "a = 0") (simp_all add: gfMul_as_pow mul3_pow_xor)

lemma gfMul_xor_left: "gfMul (a XOR b) c = gfMul a c XOR gfMul b c"
  using gfMul_xor_right[of c a b] by (simp add: gfMul_commute)

lemma uint_LOG: "uint (LOG_TABLE ! unat a) = int (dlog a)"
  by (simp add: dlog_def)

lemma gfDiv_zero: "gfDiv a 0 = Inl (Error ''Division by zero in GF(256)'')"
  by (simp add: gfDiv_def)

lemma gfDiv_nz:
  assumes "b \<noteq> 0"
  shows "\<exists>c. gfDiv a b = Inr c \<and> gfMul c b = a"
proof (cases "a = 0")
  case True
  then show ?thesis using assms by (simp add: gfDiv_def)
next
  case False
  let ?e = "nat ((int (dlog a) - int (dlog b) + 255) mod 255)"
  have la: "dlog a < 255" and lb: "dlog b < 255" using False assms EXP_dlog by auto
  have e: "?e < 255" by simp
  have d: "gfDiv a b = Inr (EXP_TABLE ! ?e)"
    using False assms by (simp add: gfDiv_def uint_LOG)
  have "(?e + dlog b) mod 255 = dlog a"
  proof (cases "dlog b \<le> dlog a")
    case True
    have "(int (dlog a) - int (dlog b) + 255) mod 255 = (int (dlog a) - int (dlog b)) mod 255"
      by simp
    also have "\<dots> = int (dlog a) - int (dlog b)"
      using True la by (intro mod_pos_pos_trivial) simp_all
    finally have "?e = dlog a - dlog b" using True by simp
    then show ?thesis using True la by simp
  next
    case False
    have "(int (dlog a) - int (dlog b) + 255) mod 255 = int (dlog a) - int (dlog b) + 255"
      using False lb by (intro mod_pos_pos_trivial) simp_all
    then have "?e = dlog a + 255 - dlog b" using False lb by simp
    then have "?e + dlog b = dlog a + 255" using lb by simp
    then show ?thesis using la by simp
  qed
  then have "gfMul (EXP_TABLE ! ?e) b = a"
    using assms False e by (simp add: gfMul_nz EXP_nonzero dlog_EXP EXP_dlog)
  with d show ?thesis by simp
qed



section \<open>Multiplication in GF(256) as the specification words it\<close>

text \<open>
  The carry-less (polynomial) product of two bytes, and its remainder modulo the
  polynomial \<open>x\<^sup>8 + x\<^sup>4 + x\<^sup>3 + x + 1\<close> (0x11B): the product has degree at most 14, and
  the reduction clears the bits 14 down to 8 in turn.
\<close>

definition clmul :: "nat \<Rightarrow> nat \<Rightarrow> nat" where
  "clmul a b = fold (\<lambda>i acc. if bit b i then acc XOR push_bit i a else acc) [0..<8] 0"

definition polymod :: "nat \<Rightarrow> nat" where
  "polymod v = fold (\<lambda>p v. if bit v p then v XOR push_bit (p - 8) 0x11b else v) (rev [8..<15]) v"

definition gf_mult_spec :: "byte \<Rightarrow> byte \<Rightarrow> byte" where
  "gf_mult_spec a b = of_nat (polymod (clmul (unat a) (unat b)))"

lemma xor_cancel_nat: "(a XOR p) XOR (b XOR p) = a XOR b" for a b p :: nat
  by (rule bit_eqI) (auto simp: bit_xor_iff)

lemma xor_swap_nat: "(a XOR b) XOR (p XOR q) = (a XOR p) XOR (b XOR q)" for a b p q :: nat
  by (rule bit_eqI) (auto simp: bit_xor_iff)

lemma xor_swap1_nat: "(a XOR b) XOR p = (a XOR p) XOR b" for a b p :: nat
  by (rule bit_eqI) (auto simp: bit_xor_iff)

lemma clmul_fold_xor_left:
  "fold (\<lambda>i acc. if bit b i then acc XOR push_bit i (a XOR a') else acc) xs (acc XOR acc')
   = fold (\<lambda>i acc. if bit b i then acc XOR push_bit i a else acc) xs acc
     XOR fold (\<lambda>i acc. if bit b i then acc XOR push_bit i a' else acc) xs acc'"
  for a a' b acc acc' :: nat
proof (induction xs arbitrary: acc acc')
  case Nil
  show ?case by simp
next
  case (Cons i xs)
  have e: "(acc XOR acc') XOR push_bit i (a XOR a') = (acc XOR push_bit i a) XOR (acc' XOR push_bit i a')"
    by (simp only: push_bit_xor xor_swap_nat)
  show ?case
  proof (cases "bit b i")
    case True
    then show ?thesis by (simp only: fold_simps o_apply if_True e Cons.IH)
  next
    case False
    then show ?thesis by (simp only: fold_simps o_apply if_False Cons.IH)
  qed
qed

lemma clmul_fold_xor_right:
  "fold (\<lambda>i acc. if bit (b XOR b') i then acc XOR push_bit i a else acc) xs (acc XOR acc')
   = fold (\<lambda>i acc. if bit b i then acc XOR push_bit i a else acc) xs acc
     XOR fold (\<lambda>i acc. if bit b' i then acc XOR push_bit i a else acc) xs acc'"
  for a b b' acc acc' :: nat
proof (induction xs arbitrary: acc acc')
  case Nil
  show ?case by simp
next
  case (Cons i xs)
  have c: "acc XOR acc' = (acc XOR push_bit i a) XOR (acc' XOR push_bit i a)"
    by (simp only: xor_cancel_nat)
  have l: "(acc XOR acc') XOR push_bit i a = (acc XOR push_bit i a) XOR acc'"
    by (rule xor_swap1_nat)
  have r: "(acc XOR acc') XOR push_bit i a = acc XOR (acc' XOR push_bit i a)"
    by (simp only: xor.assoc)
  consider (tt) "bit b i" "bit b' i" | (tf) "bit b i" "\<not> bit b' i"
    | (ft) "\<not> bit b i" "bit b' i" | (ff) "\<not> bit b i" "\<not> bit b' i" by blast
  then show ?case
  proof cases
    case tt
    then have "\<not> bit (b XOR b') i" by (simp add: bit_xor_iff)
    then show ?thesis using tt by (simp only: fold_simps o_apply if_True if_False) (subst c, rule Cons.IH)
  next
    case tf
    then have "bit (b XOR b') i" by (simp add: bit_xor_iff)
    then show ?thesis using tf by (simp only: fold_simps o_apply if_True if_False l Cons.IH)
  next
    case ft
    then have "bit (b XOR b') i" by (simp add: bit_xor_iff)
    then show ?thesis using ft by (simp only: fold_simps o_apply if_True if_False r Cons.IH)
  next
    case ff
    then have "\<not> bit (b XOR b') i" by (simp add: bit_xor_iff)
    then show ?thesis using ff by (simp only: fold_simps o_apply if_True if_False Cons.IH)
  qed
qed

lemma clmul_xor_left: "clmul (a XOR a') b = clmul a b XOR clmul a' b"
  using clmul_fold_xor_left[of b a a' "[0..<8]" 0 0] by (simp only: clmul_def xor.right_neutral)

lemma clmul_xor_right: "clmul a (b XOR b') = clmul a b XOR clmul a b'"
  using clmul_fold_xor_right[of b b' a "[0..<8]" 0 0] by (simp only: clmul_def xor.right_neutral)

lemma polymod_step_xor:
  "(if bit (v XOR w) p then (v XOR w) XOR m else v XOR w)
   = (if bit v p then v XOR m else v) XOR (if bit w p then w XOR m else w)"
  for v w m :: nat
proof -
  consider (tt) "bit v p" "bit w p" | (tf) "bit v p" "\<not> bit w p"
    | (ft) "\<not> bit v p" "bit w p" | (ff) "\<not> bit v p" "\<not> bit w p" by blast
  then show ?thesis
  proof cases
    case tt
    then have "\<not> bit (v XOR w) p" by (simp add: bit_xor_iff)
    then show ?thesis using tt by (simp only: if_True if_False xor_cancel_nat)
  next
    case tf
    then have "bit (v XOR w) p" by (simp add: bit_xor_iff)
    then show ?thesis using tf by (simp only: if_True if_False xor_swap1_nat)
  next
    case ft
    then have "bit (v XOR w) p" by (simp add: bit_xor_iff)
    then show ?thesis using ft by (simp only: if_True if_False xor.assoc)
  next
    case ff
    then have "\<not> bit (v XOR w) p" by (simp add: bit_xor_iff)
    then show ?thesis using ff by (simp only: if_True if_False)
  qed
qed

lemma polymod_fold_xor:
  "fold (\<lambda>p v. if bit v p then v XOR push_bit (p - 8) 0x11b else v) ps (v XOR w)
   = fold (\<lambda>p v. if bit v p then v XOR push_bit (p - 8) 0x11b else v) ps v
     XOR fold (\<lambda>p v. if bit v p then v XOR push_bit (p - 8) 0x11b else v) ps w"
  for v w :: nat
proof (induction ps arbitrary: v w)
  case Nil
  show ?case by simp
next
  case (Cons p ps)
  show ?case by (simp only: fold_simps o_apply polymod_step_xor Cons.IH)
qed

lemma polymod_xor: "polymod (v XOR w) = polymod v XOR polymod w"
  by (simp only: polymod_def polymod_fold_xor)

lemma gf_mult_spec_xor_left: "gf_mult_spec (a XOR a') b = gf_mult_spec a b XOR gf_mult_spec a' b"
  by (simp only: gf_mult_spec_def unsigned_xor_eq clmul_xor_left polymod_xor of_nat_xor_eq)

lemma gf_mult_spec_xor_right: "gf_mult_spec a (b XOR b') = gf_mult_spec a b XOR gf_mult_spec a b'"
  by (simp only: gf_mult_spec_def unsigned_xor_eq clmul_xor_right polymod_xor of_nat_xor_eq)

definition xtime :: "byte \<Rightarrow> byte" where
  "xtime w = push_bit 1 w XOR (if bit w 7 then 0x1b else 0)"

definition T :: "byte list list" where
  "T = [[1, 2, 4, 8, 16, 32, 64, 128],
     [2, 4, 8, 16, 32, 64, 128, 27],
     [4, 8, 16, 32, 64, 128, 27, 54],
     [8, 16, 32, 64, 128, 27, 54, 108],
     [16, 32, 64, 128, 27, 54, 108, 216],
     [32, 64, 128, 27, 54, 108, 216, 171],
     [64, 128, 27, 54, 108, 216, 171, 77],
     [128, 27, 54, 108, 216, 171, 77, 154]]"

lemma upt8: "[0..<8] = [0,1,2,3,4,5,6,7]"
  by (simp add: upt_rec)

lemma T_spec: "map (\<lambda>a. map (gf_mult_spec a) [1,2,4,8,16,32,64,128]) [1,2,4,8,16,32,64,128] = T"
  by (simp add: gf_mult_spec_def clmul_def upt8 polymod_def bit_Suc_0_iff T_def)

lemma T_0: "T ! 0 = [1,2,4,8,16,32,64,128]"
  by (simp add: upt8 T_def)

lemma pow2_list: "map (\<lambda>j. push_bit j 1) [0..<8] = [1,2,4,8,16,32,64,128::byte]"
  by (simp add: upt8)

lemma T_chain: "map (map xtime) (butlast T) = tl T"
  by (simp add: T_def xtime_def)

lemma T_length: "length T = 8" "list_all (\<lambda>r. length r = 8) T"
  by (simp_all add: T_def)

lemma take_bit_Suc_xor: 
  "take_bit (Suc n) a = take_bit n a XOR (if bit a n then push_bit n 1 else 0)" for a :: byte
  by (rule bit_word_eqI) (auto simp: bit_simps less_Suc_eq)

lemma additive_ext:
  fixes f g :: "byte \<Rightarrow> byte"
  assumes f: "\<And>x y. f (x XOR y) = f x XOR f y"
    and g: "\<And>x y. g (x XOR y) = g x XOR g y"
    and basis: "\<And>i. i < 8 \<Longrightarrow> f (push_bit i 1) = g (push_bit i 1)"
  shows "f a = g a"
proof -
  have f0: "f 0 = 0" using f[of 0 0] by simp
  have g0: "g 0 = 0" using g[of 0 0] by simp
  have "n \<le> 8 \<Longrightarrow> f (take_bit n a) = g (take_bit n a)" for n
  proof (induction n)
    case 0
    show ?case by (simp add: f0 g0)
  next
    case (Suc n)
    then have "n < 8" by simp
    then show ?case using Suc basis[of n] by (simp add: take_bit_Suc_xor f g f0 g0)
  qed
  from this[of 8] show ?thesis using take_bit_length_eq[of a] by simp
qed

lemma xtime_xor: "xtime (a XOR b) = xtime a XOR xtime b"
  by (cases "bit a 7"; cases "bit b 7") (simp_all add: xtime_def bit_xor_iff ac_simps)

lemma mul3_xtime: "mul3 a = a XOR xtime a"
  by (simp add: mul3_def xtime_def ac_simps)

lemma dlog_3: "dlog 3 = 1"
  using dlog_EXP[of 1] by (simp add: EXP_TABLE_nth G_def)

lemma gfMul_3: "gfMul 3 a = mul3 a"
  by (simp add: gfMul_as_pow dlog_3)

lemma gfMul_2: "gfMul 2 a = xtime a"
proof -
  have "gfMul (1 XOR 2) a = gfMul 1 a XOR gfMul 2 a" by (rule gfMul_xor_left)
  moreover have "(1 XOR 2 :: byte) = 3" by simp
  ultimately have "a XOR gfMul 2 a = a XOR xtime a" by (simp add: gfMul_3 mul3_xtime)
  then have "a XOR (a XOR gfMul 2 a) = a XOR (a XOR xtime a)" by (rule arg_cong)
  then show ?thesis by (simp only: bit.xor_left_self)
qed


lemma xtime_pow2: "i < 7 \<Longrightarrow> xtime (push_bit i 1) = push_bit (Suc i) 1"
  by (simp add: xtime_def bit_simps)

lemma gfMul_pow2: "i < 8 \<Longrightarrow> gfMul (push_bit i 1) b = (xtime ^^ i) b"
proof (induction i)
  case 0
  show ?case by simp
next
  case (Suc i)
  then have i: "i < 7" by simp
  have e: "push_bit (Suc i) 1 = gfMul 2 (push_bit i 1)"
    by (simp only: gfMul_2 xtime_pow2[OF i])
  have "gfMul (push_bit (Suc i) 1) b = gfMul (gfMul 2 (push_bit i 1)) b"
    by (simp only: e)
  also have "\<dots> = gfMul 2 (gfMul (push_bit i 1) b)"
    by (rule gfMul_assoc)
  also have "\<dots> = xtime (gfMul (push_bit i 1) b)"
    by (rule gfMul_2)
  finally show ?case using Suc by simp
qed

lemma T_row_length: "i < 8 \<Longrightarrow> length (T ! i) = 8"
  using T_length by (simp add: list_all_length)

lemma xtime_pow_T: "i < 8 \<Longrightarrow> j < 8 \<Longrightarrow> (xtime ^^ i) (push_bit j 1) = T ! i ! j"
proof (induction i)
  case 0
  have "T ! 0 ! j = map (\<lambda>j. push_bit j 1) [0..<8] ! j"
    by (simp only: T_0 pow2_list)
  then show ?case using 0 by simp
next
  case (Suc i)
  then have i: "i < 7" by simp
  have ne: "T \<noteq> []" using T_length by auto
  have "T ! Suc i ! j = tl T ! i ! j" using i T_length by (simp add: nth_tl)
  also have "\<dots> = map (map xtime) (butlast T) ! i ! j" by (simp only: T_chain)
  also have "\<dots> = xtime (T ! i ! j)"
    using i Suc.prems T_length T_row_length[of i] by (simp add: nth_butlast)
  finally show ?case using Suc by simp
qed

lemma spec_T:
  assumes "i < 8" "j < 8"
  shows "gf_mult_spec (push_bit i 1) (push_bit j 1) = T ! i ! j"
proof -
  define P :: "byte list" where "P = [1,2,4,8,16,32,64,128]"
  have len: "length P = 8" by (simp add: P_def)
  have P: "push_bit n 1 = P ! n" if "n < 8" for n
  proof -
    have "P ! n = map (\<lambda>j. push_bit j 1) [0..<8] ! n" by (simp only: pow2_list P_def)
    then show ?thesis using that by simp
  qed
  have "T ! i ! j = map (\<lambda>a. map (gf_mult_spec a) P) P ! i ! j" by (simp only: T_spec P_def)
  also have "\<dots> = gf_mult_spec (P ! i) (P ! j)" using assms len by simp
  finally show ?thesis using assms by (simp only: P)
qed

lemma gfMul_eq_spec: "gfMul a b = gf_mult_spec a b"
proof -
  have col: "gfMul x (push_bit j 1) = gf_mult_spec x (push_bit j 1)" if j: "j < 8" for x j
  proof (rule additive_ext[where f = "\<lambda>x. gfMul x (push_bit j 1)"
        and g = "\<lambda>x. gf_mult_spec x (push_bit j 1)"])
    show "gfMul (x XOR y) (push_bit j 1) = gfMul x (push_bit j 1) XOR gfMul y (push_bit j 1)"
      for x y by (rule gfMul_xor_left)
    show "gf_mult_spec (x XOR y) (push_bit j 1)
        = gf_mult_spec x (push_bit j 1) XOR gf_mult_spec y (push_bit j 1)" for x y
      by (rule gf_mult_spec_xor_left)
    show "gfMul (push_bit i 1) (push_bit j 1) = gf_mult_spec (push_bit i 1) (push_bit j 1)"
      if "i < 8" for i
      using that j by (simp only: gfMul_pow2 xtime_pow_T spec_T)
  qed
  show ?thesis
  proof (rule additive_ext[where f = "gfMul a" and g = "gf_mult_spec a"])
    show "gfMul a (x XOR y) = gfMul a x XOR gfMul a y" for x y by (rule gfMul_xor_right)
    show "gf_mult_spec a (x XOR y) = gf_mult_spec a x XOR gf_mult_spec a y" for x y
      by (rule gf_mult_spec_xor_right)
    show "gfMul a (push_bit i 1) = gf_mult_spec a (push_bit i 1)" if "i < 8" for i
      using that by (rule col)
  qed
qed

lemma gfMul_cancel_right:
  assumes "b \<noteq> 0" "gfMul c' b = gfMul c b" shows "c' = c"
proof -
  have "gfMul (c' XOR c) b = 0" using assms(2) by (simp add: gfMul_xor_left)
  then have "c' XOR c = 0" using assms(1) by (simp add: gfMul_eq_0_iff)
  then have "(c' XOR c) XOR c = c" by simp
  then show ?thesis by (simp add: xor.assoc)
qed

lemma gfDiv_Inl_iff: "(\<exists>e. gfDiv a b = Inl e) \<longleftrightarrow> b = 0"
  by (auto simp: gfDiv_def)

text \<open>
  Claim C2. For all bytes \<open>a\<close>, \<open>b\<close>: \<open>gfMul a b\<close> is the carry-less product of \<open>a\<close> and
  \<open>b\<close> reduced modulo 0x11B; it is 0 when an operand is 0 and the table entry
  \<open>exp[(log a + log b) mod 255]\<close> otherwise. \<open>gfDiv a b\<close> throws exactly when \<open>b = 0\<close>;
  otherwise it returns 0 for \<open>a = 0\<close> and \<open>exp[(log a - log b + 255) mod 255]\<close> for
  \<open>a \<noteq> 0\<close>, and the value returned is the one and only \<open>c\<close> with \<open>gfMul c b = a\<close>.
\<close>

theorem gf256_mul_div:
  "gfMul a b = gf_mult_spec a b
   \<and> gfMul a b = (if a = 0 \<or> b = 0 then 0
        else EXP_TABLE ! ((unat (LOG_TABLE ! unat a) + unat (LOG_TABLE ! unat b)) mod 255))
   \<and> ((\<exists>e. gfDiv a b = Inl e) \<longleftrightarrow> b = 0)
   \<and> (b \<noteq> 0 \<longrightarrow> gfDiv a b = Inr (if a = 0 then 0
        else EXP_TABLE ! nat ((uint (LOG_TABLE ! unat a) - uint (LOG_TABLE ! unat b) + 255) mod 255)))
   \<and> (b \<noteq> 0 \<longrightarrow> (\<exists>c. gfDiv a b = Inr c \<and> (\<forall>c'. gfMul c' b = a \<longleftrightarrow> c' = c)))"
proof (intro conjI impI)
  show "gfMul a b = gf_mult_spec a b" by (rule gfMul_eq_spec)
  show "gfMul a b = (if a = 0 \<or> b = 0 then 0
        else EXP_TABLE ! ((unat (LOG_TABLE ! unat a) + unat (LOG_TABLE ! unat b)) mod 255))"
    by (simp add: gfMul_def)
  show "(\<exists>e. gfDiv a b = Inl e) \<longleftrightarrow> b = 0" by (rule gfDiv_Inl_iff)
  show "gfDiv a b = Inr (if a = 0 then 0
        else EXP_TABLE ! nat ((uint (LOG_TABLE ! unat a) - uint (LOG_TABLE ! unat b) + 255) mod 255))"
    if "b \<noteq> 0" using that by (simp add: gfDiv_def)
  show "\<exists>c. gfDiv a b = Inr c \<and> (\<forall>c'. gfMul c' b = a \<longleftrightarrow> c' = c)" if b: "b \<noteq> 0"
  proof -
    from gfDiv_nz[OF b, of a] obtain c where c: "gfDiv a b = Inr c" "gfMul c b = a" by blast
    have "gfMul c' b = a \<longleftrightarrow> c' = c" for c'
      using c(2) gfMul_cancel_right[OF b, of c' c] by auto
    with c(1) show ?thesis by blast
  qed
qed

lemma gfMul_2_3: "gfMul 2 3 = 6"
  by (simp add: gfMul_2 xtime_def)

theorem gf256_mul_div_witness:
  "(3::byte) \<noteq> 0 \<and> gfDiv 6 3 = Inr 2 \<and> gfMul 2 3 = gf_mult_spec 2 3"
proof -
  have nz: "(3::byte) \<noteq> 0" by simp
  from gf256_mul_div[of 6 3] nz
  obtain c where c: "gfDiv 6 3 = Inr c" "\<forall>c'. gfMul c' 3 = 6 \<longleftrightarrow> c' = c" by blast
  from spec[OF c(2), of 2] gfMul_2_3 have "c = 2" by simp
  with c(1) nz gf256_mul_div[of 2 3] show ?thesis by simp
qed


section \<open>What splitSecret computes\<close>

text \<open>
  The coefficient array of byte position \<open>b\<close>: the secret byte, then the \<open>k - 1\<close> random
  bytes drawn in round \<open>b\<close>. \<open>shareRow\<close> is share \<open>i\<close> after \<open>m\<close> rounds of the loop.
\<close>

definition coeffsOf :: "byte list \<Rightarrow> nat \<Rightarrow> rng \<Rightarrow> nat \<Rightarrow> byte list" where
  "coeffsOf secret k r b = secret ! b # map (\<lambda>j. r (b * (k - 1) + j)) [0..<k - 1]"

definition shareRow :: "byte list \<Rightarrow> nat \<Rightarrow> rng \<Rightarrow> nat \<Rightarrow> nat \<Rightarrow> byte list" where
  "shareRow secret k r m i =
     of_nat (i + 1) # map (\<lambda>b. evaluatePolynomial (coeffsOf secret k r b) (of_nat (i + 1))) [0..<m]
       @ replicate (length secret - m) 0"

definition sharesUpto :: "byte list \<Rightarrow> nat \<Rightarrow> nat \<Rightarrow> rng \<Rightarrow> nat \<Rightarrow> byte list list" where
  "sharesUpto secret n k r m = map (shareRow secret k r m) [0..<n]"

lemma inner_fold:
  "m \<le> length sh \<Longrightarrow>
   fold (\<lambda>i sh. sh[i := (sh ! i)[c := v i]]) [0..<m] sh
   = map (\<lambda>i. if i < m then (sh ! i)[c := v i] else sh ! i) [0..<length sh]"
proof (induction m)
  case 0
  show ?case by (simp add: map_nth)
next
  case (Suc m)
  then have m: "m < length sh" by simp
  show ?case
    using Suc m by (auto intro!: nth_equalityI simp: nth_list_update less_Suc_eq)
qed

lemma inner_fold_all:
  "fold (\<lambda>i sh. sh[i := (sh ! i)[c := v i]]) [0..<length sh] sh
   = map (\<lambda>i. (sh ! i)[c := v i]) [0..<length sh]"
  using inner_fold[where m = "length sh" and sh = sh and c = c and v = v] by simp

lemma shareRow_update:
  assumes "m < length secret"
  shows "(shareRow secret k r m i)[m + 1 := evaluatePolynomial (coeffsOf secret k r m) (of_nat (i + 1))]
       = shareRow secret k r (Suc m) i"
proof -
  have "length secret - m = Suc (length secret - Suc m)" using assms by simp
  then have "(replicate (length secret - m) (0::byte))[0 := v] = v # replicate (length secret - Suc m) 0" for v
    by simp
  then show ?thesis by (simp add: shareRow_def list_update_append)
qed

lemma sharesUpto_length: "length (sharesUpto secret n k r m) = n"
  by (simp add: sharesUpto_def)

lemma sharesUpto_nth: "i < n \<Longrightarrow> sharesUpto secret n k r m ! i = shareRow secret k r m i"
  by (simp add: sharesUpto_def)

lemma splitByte_step:
  assumes "1 \<le> k" "m < length secret"
  shows "splitByte secret n k m (sharesUpto secret n k r m, \<lambda>i. r (i + m * (k - 1)))
       = (sharesUpto secret n k r (Suc m), \<lambda>i. r (i + Suc m * (k - 1)))"
proof -
  let ?r = "\<lambda>i. r (i + m * (k - 1))"
  define ev where "ev = (\<lambda>i. evaluatePolynomial (coeffsOf secret k r m) (of_nat (i + 1)))"
  have rs: "getRandomValues (k - 1) ?r = (map (\<lambda>j. r (m * (k - 1) + j)) [0..<k - 1], \<lambda>i. r (i + Suc m * (k - 1)))"
    by (simp add: getRandomValues_def ac_simps)
  have co: "take 1 ((replicate k 0)[0 := secret ! m]) @ map (\<lambda>j. r (m * (k - 1) + j)) [0..<k - 1]
        = coeffsOf secret k r m"
    using assms(1) by (cases k) (simp_all add: coeffsOf_def)
  have A: "fold (\<lambda>i sh. sh[i := (sh ! i)[m + 1 := ev i]]) [0..<n] (sharesUpto secret n k r m)
      = map (\<lambda>i. (sharesUpto secret n k r m ! i)[m + 1 := ev i]) [0..<n]"
    using inner_fold_all[where sh = "sharesUpto secret n k r m" and c = "m + 1" and v = ev]
    by (simp only: sharesUpto_length)
  have B: "map (\<lambda>i. (sharesUpto secret n k r m ! i)[m + 1 := ev i]) [0..<n] = sharesUpto secret n k r (Suc m)"
  proof (rule nth_equalityI)
    show "length (map (\<lambda>i. (sharesUpto secret n k r m ! i)[m + 1 := ev i]) [0..<n])
        = length (sharesUpto secret n k r (Suc m))"
      by (simp add: sharesUpto_length)
    fix i assume "i < length (map (\<lambda>i. (sharesUpto secret n k r m ! i)[m + 1 := ev i]) [0..<n])"
    then have i: "i < n" by simp
    have "(sharesUpto secret n k r m ! i)[m + 1 := ev i] = sharesUpto secret n k r (Suc m) ! i"
      using i by (simp only: sharesUpto_nth ev_def shareRow_update[OF assms(2)])
    then show "map (\<lambda>i. (sharesUpto secret n k r m ! i)[m + 1 := ev i]) [0..<n] ! i
        = sharesUpto secret n k r (Suc m) ! i"
      using i by simp
  qed
  show ?thesis
    unfolding splitByte_def 
    by (simp only: prod.case rs co Let_def A[unfolded ev_def] B[unfolded ev_def])
qed

lemma splitByte_fold:
  assumes "1 \<le> k" "m \<le> length secret"
  shows "fold (splitByte secret n k) [0..<m] (sharesUpto secret n k r 0, r)
       = (sharesUpto secret n k r m, \<lambda>i. r (i + m * (k - 1)))"
  using assms(2)
proof (induction m)
  case 0
  show ?case by simp
next
  case (Suc m)
  then show ?case using splitByte_step[OF assms(1), of m secret n r] by simp
qed

lemma splitSecret_eq:
  assumes "2 \<le> k" "k \<le> n" "n \<le> 255"
  shows "splitSecret secret n k r = Inr (sharesUpto secret (nat n) (nat k) r (length secret))"
proof -
  have init: "map (\<lambda>i. (replicate (length secret + 1) 0)[0 := of_nat (i + 1)]) [0..<nat n]
        = sharesUpto secret (nat n) (nat k) r 0"
    by (simp add: sharesUpto_def shareRow_def)
  have k1: "1 \<le> nat k" using assms by simp
  have c: "\<not> k > n" "\<not> k < 2" "\<not> n > 255" using assms by auto
  show ?thesis
    unfolding splitSecret_def
    by (simp only: c if_False init splitByte_fold[OF k1 order_refl] fst_conv)
qed

section \<open>GF(256) as a field\<close>

text \<open>
  The bytes with \<open>XOR\<close> as addition and \<open>gfMul\<close> as multiplication form a field; the type
  \<open>gf256\<close> carries this structure, so that sums, products and powers of the library
  apply to the arithmetic of the source.
\<close>

datatype gf256 = GF (rep: byte)

instantiation gf256 :: field
begin

definition zero_gf256 :: gf256 where "zero_gf256 = GF 0"
definition one_gf256 :: gf256 where "one_gf256 = GF 1"
definition plus_gf256 :: "gf256 \<Rightarrow> gf256 \<Rightarrow> gf256" where "plus_gf256 a b = GF (rep a XOR rep b)"
definition uminus_gf256 :: "gf256 \<Rightarrow> gf256" where "uminus_gf256 a = a"
definition minus_gf256 :: "gf256 \<Rightarrow> gf256 \<Rightarrow> gf256" where "minus_gf256 a b = GF (rep a XOR rep b)"
definition times_gf256 :: "gf256 \<Rightarrow> gf256 \<Rightarrow> gf256" where "times_gf256 a b = GF (gfMul (rep a) (rep b))"
definition inverse_gf256 :: "gf256 \<Rightarrow> gf256" where
  "inverse_gf256 a = GF (case gfDiv 1 (rep a) of Inr c \<Rightarrow> c | Inl e \<Rightarrow> 0)"
definition divide_gf256 :: "gf256 \<Rightarrow> gf256 \<Rightarrow> gf256" where "divide_gf256 a b = a * inverse b"

instance
proof
  fix a b c :: gf256
  show "a * b * c = a * (b * c)" by (simp add: times_gf256_def gfMul_assoc)
  show "a * b = b * a" by (simp add: times_gf256_def gfMul_commute)
  show "1 * a = a" by (simp add: times_gf256_def one_gf256_def)
  show "a + b + c = a + (b + c)" by (simp add: plus_gf256_def ac_simps)
  show "a + b = b + a" by (simp add: plus_gf256_def ac_simps)
  show "0 + a = a" by (simp add: plus_gf256_def zero_gf256_def)
  show "- a + a = 0" by (simp add: plus_gf256_def zero_gf256_def uminus_gf256_def)
  show "a - b = a + - b" by (simp add: plus_gf256_def minus_gf256_def uminus_gf256_def)
  show "(a + b) * c = a * c + b * c" by (simp add: plus_gf256_def times_gf256_def gfMul_xor_left)
  show "(0::gf256) \<noteq> 1" by (simp add: zero_gf256_def one_gf256_def)
  show "inverse a * a = 1" if "a \<noteq> 0"
  proof -
    from that have "rep a \<noteq> 0" by (cases a) (simp add: zero_gf256_def)
    from gfDiv_nz[OF this, of 1] show ?thesis
      by (auto simp: inverse_gf256_def times_gf256_def one_gf256_def)
  qed
  show "a div b = a * inverse b" by (simp add: divide_gf256_def)
  show "inverse (0::gf256) = 0" by (simp add: inverse_gf256_def zero_gf256_def gfDiv_def)
qed

end

lemma gf_minus_eq_plus: "a - b = a + (b :: gf256)"
  by (simp add: plus_gf256_def minus_gf256_def)

lemma gf_uminus: "- a = (a :: gf256)"
  by (simp add: uminus_gf256_def)

lemma rep_zero [simp]: "rep 0 = 0" by (simp add: zero_gf256_def)
lemma rep_one [simp]: "rep 1 = 1" by (simp add: one_gf256_def)
lemma GF_eq_0_iff [simp]: "GF x = 0 \<longleftrightarrow> x = 0" by (simp add: zero_gf256_def)
lemma GF_xor: "GF (x XOR y) = GF x + GF y" by (simp add: plus_gf256_def)
lemma GF_gfMul: "GF (gfMul x y) = GF x * GF y" by (simp add: times_gf256_def)
lemma GF_0: "GF 0 = 0" by (simp add: zero_gf256_def)
lemma GF_1: "GF 1 = 1" by (simp add: one_gf256_def)

lemma gfDiv_field:
  assumes "b \<noteq> 0" shows "gfDiv a b = Inr (rep (GF a / GF b))"
proof -
  from gfDiv_nz[OF assms, of a] obtain c where c: "gfDiv a b = Inr c" "gfMul c b = a" by blast
  have "GF c * GF b = GF a" using c(2) by (simp add: GF_gfMul[symmetric])
  moreover have "GF b \<noteq> 0" using assms by simp
  ultimately have "GF c = GF a / GF b" by (simp add: eq_divide_eq)
  then show ?thesis using c(1) by (metis gf256.sel)
qed

lemma horner_fold:
  "fold (\<lambda>i result. gfMul result x XOR cs ! i) (rev [0..<n]) acc
   = rep (GF acc * GF x ^ n + (\<Sum>m<n. GF (cs ! m) * GF x ^ m))"
proof (induction n arbitrary: acc)
  case 0
  show ?case by simp
next
  case (Suc n)
  have "fold (\<lambda>i result. gfMul result x XOR cs ! i) (rev [0..<Suc n]) acc
      = fold (\<lambda>i result. gfMul result x XOR cs ! i) (rev [0..<n]) (gfMul acc x XOR cs ! n)"
    by simp
  also have "\<dots> = rep (GF (gfMul acc x XOR cs ! n) * GF x ^ n + (\<Sum>m<n. GF (cs ! m) * GF x ^ m))"
    by (rule Suc.IH)
  also have "GF (gfMul acc x XOR cs ! n) * GF x ^ n + (\<Sum>m<n. GF (cs ! m) * GF x ^ m)
      = GF acc * GF x ^ Suc n + (\<Sum>m<Suc n. GF (cs ! m) * GF x ^ m)"
    by (simp add: GF_xor GF_gfMul algebra_simps)
  finally show ?case .
qed

lemma evaluatePolynomial_sum:
  "evaluatePolynomial cs x = rep (\<Sum>m<length cs. GF (cs ! m) * GF x ^ m)"
  by (simp add: evaluatePolynomial_def horner_fold GF_0)

section \<open>Polynomial functions and Lagrange interpolation\<close>

lemma poly_many_roots_zero:
  fixes c :: "nat \<Rightarrow> 'a::idom"
  assumes "finite S" "n < card S" "\<And>z. z \<in> S \<Longrightarrow> (\<Sum>i\<le>n. c i * z ^ i) = 0"
  shows "(\<Sum>i\<le>n. c i * w ^ i) = 0"
  using assms
proof (induction n arbitrary: c S w)
  case 0
  then obtain z where "z \<in> S" by (cases "S = {}") auto
  with 0(3)[of z] show ?case by simp
next
  case (Suc n)
  then obtain z0 where z0: "z0 \<in> S" by (cases "S = {}") auto
  with Suc.prems(3) have "(\<Sum>i\<le>Suc n. c i * z0 ^ i) = 0" by blast
  from polyfun_linear_factor_root[OF this]
  obtain b where b: "\<And>z. (\<Sum>i\<le>Suc n. c i * z ^ i) = (z - z0) * (\<Sum>i<Suc n. b i * z ^ i)"
    by blast
  have b': "(\<Sum>i\<le>Suc n. c i * z ^ i) = (z - z0) * (\<Sum>i\<le>n. b i * z ^ i)" for z
    using b[of z] by (simp only: lessThan_Suc_atMost)
  have "(\<Sum>i\<le>n. b i * w ^ i) = 0"
  proof (rule Suc.IH[of "S - {z0}"])
    show "finite (S - {z0})" using Suc.prems(1) by simp
    show "n < card (S - {z0})" using Suc.prems(1,2) z0 by simp
    fix z assume "z \<in> S - {z0}"
    then have "z \<in> S" "z - z0 \<noteq> 0" by auto
    with Suc.prems(3)[of z] b'[of z] show "(\<Sum>i\<le>n. b i * z ^ i) = 0" by simp
  qed
  then show ?case by (simp only: b' mult_zero_right)
qed

definition polyfun :: "nat \<Rightarrow> ('a::idom \<Rightarrow> 'a) \<Rightarrow> bool" where
  "polyfun N f \<longleftrightarrow> (\<exists>c. \<forall>z. f z = (\<Sum>i\<le>N. c i * z ^ i))"

lemma polyfun_const: "polyfun N (\<lambda>z. a)"
  unfolding polyfun_def
  by (rule exI[of _ "\<lambda>i. if i = 0 then a else 0"]) (simp add: if_distrib[of "\<lambda>x. x * _"] cong: if_cong)

lemma polyfun_add: "polyfun N f \<Longrightarrow> polyfun N g \<Longrightarrow> polyfun N (\<lambda>z. f z + g z)"
  unfolding polyfun_def
proof (elim exE)
  fix c d assume "\<forall>z. f z = (\<Sum>i\<le>N. c i * z ^ i)" "\<forall>z. g z = (\<Sum>i\<le>N. d i * z ^ i)"
  then have "\<forall>z. f z + g z = (\<Sum>i\<le>N. (c i + d i) * z ^ i)"
    by (simp add: sum.distrib distrib_right)
  then show "\<exists>c. \<forall>z. f z + g z = (\<Sum>i\<le>N. c i * z ^ i)"
    by (rule exI[of _ "\<lambda>i. c i + d i"])
qed

lemma polyfun_cmult: "polyfun N f \<Longrightarrow> polyfun N (\<lambda>z. a * f z)"
  unfolding polyfun_def
proof (elim exE)
  fix c assume "\<forall>z. f z = (\<Sum>i\<le>N. c i * z ^ i)"
  then have "\<forall>z. a * f z = (\<Sum>i\<le>N. (a * c i) * z ^ i)"
    by (simp add: sum_distrib_left mult.assoc)
  then show "\<exists>c. \<forall>z. a * f z = (\<Sum>i\<le>N. c i * z ^ i)"
    by (rule exI[of _ "\<lambda>i. a * c i"])
qed

lemma polyfun_Suc: "polyfun N f \<Longrightarrow> polyfun (Suc N) f"
  unfolding polyfun_def
proof (elim exE)
  fix c assume c: "\<forall>z. f z = (\<Sum>i\<le>N. c i * z ^ i)"
  have "\<forall>z. f z = (\<Sum>i\<le>Suc N. (if i \<le> N then c i else 0) * z ^ i)"
    using c by simp
  then show "\<exists>c. \<forall>z. f z = (\<Sum>i\<le>Suc N. c i * z ^ i)"
    by (rule exI[of _ "\<lambda>i. if i \<le> N then c i else 0"])
qed

lemma polyfun_mono: "N \<le> M \<Longrightarrow> polyfun N f \<Longrightarrow> polyfun M f"
  by (induction M) (auto simp: le_Suc_eq intro: polyfun_Suc)

lemma polyfun_shift: "polyfun N f \<Longrightarrow> polyfun (Suc N) (\<lambda>z. z * f z)"
  unfolding polyfun_def
proof (elim exE)
  fix c assume c: "\<forall>z. f z = (\<Sum>i\<le>N. c i * z ^ i)"
  have "z * f z = (\<Sum>i\<le>Suc N. (case i of 0 \<Rightarrow> 0 | Suc j \<Rightarrow> c j) * z ^ i)" for z
  proof -
    have "(\<Sum>i\<le>Suc N. (case i of 0 \<Rightarrow> 0 | Suc j \<Rightarrow> c j) * z ^ i) = (\<Sum>i\<le>N. c i * z ^ Suc i)"
      by (simp add: sum.atMost_Suc_shift del: sum.atMost_Suc power_Suc)
    also have "\<dots> = z * (\<Sum>i\<le>N. c i * z ^ i)"
      by (simp add: sum_distrib_left mult_ac)
    finally show ?thesis using c by simp
  qed
  then have "\<forall>z. z * f z = (\<Sum>i\<le>Suc N. (case i of 0 \<Rightarrow> 0 | Suc j \<Rightarrow> c j) * z ^ i)" by blast
  then show "\<exists>c. \<forall>z. z * f z = (\<Sum>i\<le>Suc N. c i * z ^ i)"
    by (rule exI[of _ "\<lambda>i. case i of 0 \<Rightarrow> 0 | Suc j \<Rightarrow> c j"])
qed

lemma polyfun_linear_mult: 
  assumes "polyfun N f" shows "polyfun (Suc N) (\<lambda>z. (z - a) * f z)"
proof -
  have "polyfun (Suc N) (\<lambda>z. z * f z + (- a) * f z)"
    by (intro polyfun_add polyfun_shift polyfun_cmult polyfun_Suc assms)
  moreover have "(\<lambda>z. z * f z + (- a) * f z) = (\<lambda>z. (z - a) * f z)"
    by (simp add: algebra_simps)
  ultimately show ?thesis by simp
qed

lemma polyfun_prod_linear:
  "finite J \<Longrightarrow> polyfun (card J) (\<lambda>z. \<Prod>j\<in>J. (z - x j))"
proof (induction J rule: finite_induct)
  case empty
  show ?case using polyfun_const[of 0 1] by simp
next
  case (insert j J)
  then show ?case using polyfun_linear_mult[OF insert.IH, of "x j"] by simp
qed

lemma polyfun_sum:
  "finite I \<Longrightarrow> (\<And>i. i \<in> I \<Longrightarrow> polyfun N (f i)) \<Longrightarrow> polyfun N (\<lambda>z. \<Sum>i\<in>I. f i z)"
proof (induction I rule: finite_induct)
  case empty
  show ?case using polyfun_const[of N 0] by simp
next
  case (insert i I)
  then show ?case using polyfun_add[of N "f i" "\<lambda>z. \<Sum>i\<in>I. f i z"] by simp
qed

lemma polyfun_poly: "polyfun N (\<lambda>z. \<Sum>m\<le>N. c m * z ^ m)"
  unfolding polyfun_def by blast

lemma polyfun_many_roots:
  assumes "polyfun N f" "finite S" "N < card S" "\<And>z. z \<in> S \<Longrightarrow> f z = 0"
  shows "f w = 0"
proof -
  from assms(1) obtain c where c: "\<And>z. f z = (\<Sum>i\<le>N. c i * z ^ i)"
    unfolding polyfun_def by blast
  show ?thesis
    using poly_many_roots_zero[OF assms(2,3), of c w] assms(4) by (simp add: c)
qed

text \<open>Lagrange interpolation over a field.\<close>

lemma lagrange_basis_at_node:
  fixes x :: "nat \<Rightarrow> 'a::field"
  assumes inj: "inj_on x {..<n}" and l: "l < n" and i: "i < n"
  shows "(\<Prod>j\<in>{..<n} - {i}. (x l - x j) / (x i - x j)) = (if i = l then 1 else 0)"
proof (cases "i = l")
  case True
  have "(x i - x j) / (x i - x j) = 1" if "j \<in> {..<n} - {i}" for j
    using that inj i by (auto simp: inj_on_def)
  then show ?thesis using True by simp
next
  case False
  then have "l \<in> {..<n} - {i}" using l by simp
  moreover have "(x l - x l) / (x i - x l) = 0" by simp
  ultimately have "(\<Prod>j\<in>{..<n} - {i}. (x l - x j) / (x i - x j)) = 0"
    by (intro prod_zero) auto
  then show ?thesis using False by simp
qed

lemma lagrange_interpolation:
  fixes x :: "nat \<Rightarrow> 'a::field"
  assumes inj: "inj_on x {..<n}" and k: "k \<le> n"
  shows "(\<Sum>i<n. (\<Sum>m<k. c m * x i ^ m) * (\<Prod>j\<in>{..<n} - {i}. (w - x j) / (x i - x j)))
       = (\<Sum>m<k. c m * w ^ m)"
proof (cases "n = 0")
  case True
  then show ?thesis using k by simp
next
  case False
  then obtain N where N: "n = Suc N" by (cases n) auto
  define p where "p = (\<lambda>z. \<Sum>m<k. c m * z ^ m)"
  define q where "q = (\<lambda>z. (\<Sum>i<n. p (x i) * (\<Prod>j\<in>{..<n} - {i}. (z - x j) / (x i - x j))) + (- 1) * p z)"
  have pp: "polyfun N p"
  proof -
    have "p = (\<lambda>z. \<Sum>m\<le>N. (if m < k then c m else 0) * z ^ m)"
    proof
      fix z
      have "(\<Sum>m\<le>N. (if m < k then c m else 0) * z ^ m) = (\<Sum>m\<in>{..N} \<inter> {m. m < k}. c m * z ^ m)"
        by (simp add: sum.inter_restrict if_distrib[of "\<lambda>x. x * _"] cong: if_cong)
      also have "{..N} \<inter> {m. m < k} = {..<k}" using k N by auto
      finally show "p z = (\<Sum>m\<le>N. (if m < k then c m else 0) * z ^ m)" by (simp add: p_def)
    qed
    then show ?thesis using polyfun_poly[of N "\<lambda>m. if m < k then c m else 0"] by simp
  qed
  have basis: "polyfun N (\<lambda>z. \<Prod>j\<in>{..<n} - {i}. (z - x j) / (x i - x j))" if "i < n" for i
  proof -
    define D where "D = (\<Prod>j\<in>{..<n} - {i}. (x i - x j))"
    have "(\<Prod>j\<in>{..<n} - {i}. (z - x j) / (x i - x j)) = inverse D * (\<Prod>j\<in>{..<n} - {i}. (z - x j))" for z
      unfolding prod_dividef D_def[symmetric] by (simp add: divide_inverse mult.commute)
    then have e: "(\<lambda>z. \<Prod>j\<in>{..<n} - {i}. (z - x j) / (x i - x j))
        = (\<lambda>z. inverse D * (\<Prod>j\<in>{..<n} - {i}. (z - x j)))" by (rule ext)
    have cd: "card ({..<n} - {i}) = N" using that N by simp
    have "polyfun (card ({..<n} - {i})) (\<lambda>z. inverse D * (\<Prod>j\<in>{..<n} - {i}. (z - x j)))"
      by (intro polyfun_cmult polyfun_prod_linear) simp
    then show ?thesis by (simp only: e cd)
  qed
  have pq: "polyfun N q"
    unfolding q_def
    by (intro polyfun_add polyfun_sum polyfun_cmult basis pp) auto
  have roots: "q z = 0" if "z \<in> x ` {..<n}" for z
  proof -
    from that obtain l where l: "l < n" "z = x l" by auto
    have "(\<Sum>i<n. p (x i) * (\<Prod>j\<in>{..<n} - {i}. (x l - x j) / (x i - x j)))
        = (\<Sum>i<n. p (x i) * (if i = l then 1 else 0))"
      by (intro sum.cong refl) (simp add: lagrange_basis_at_node[OF inj l(1)])
    also have "\<dots> = (\<Sum>i<n. if i = l then p (x i) else 0)"
      by (intro sum.cong refl) simp
    also have "\<dots> = p (x l)" using l(1) by simp
    finally show ?thesis by (simp add: q_def l(2))
  qed
  have "card (x ` {..<n}) = n" using inj by (simp add: card_image)
  then have cardS: "N < card (x ` {..<n})" using N by simp
  have fin: "finite (x ` {..<n})" by simp
  have "q w = 0"
    by (rule polyfun_many_roots[OF pq fin cardS roots])
  then show ?thesis by (simp add: q_def p_def)
qed


section \<open>What reconstructSecret computes\<close>

definition divErr :: error where
  "divErr = Error ''Division by zero in GF(256)''"

lemma lessThan_Suc_minus:
  "{..<Suc m} - {i} = (if m = i then {..<m} - {i} else insert m ({..<m} - {i}))"
  by auto

lemma gfMulU_Some: "gfMulU (Some a) (Some b) = Some (gfMul a b)"
  by (simp add: gfMulU_def)

lemma gfMul_rep: "gfMul a b = rep (GF a * GF b)"
  by (simp add: times_gf256_def)

lemma xor_rep: "a XOR b = rep (GF a + GF b)"
  by (simp add: plus_gf256_def)

text \<open>The denominator of the Lagrange coefficient, for any list of x-coordinates.\<close>

lemma lagrangeDen_fold:
  "snd (fold (\<lambda>j (numerator, denominator).
             if i \<noteq> j
             then (gfMulU numerator (xs ! j), gfMul denominator (toInt32 (xs ! i) XOR toInt32 (xs ! j)))
             else (numerator, denominator)) [0..<m] (a, d))
   = rep (GF d * (\<Prod>j\<in>{..<m} - {i}. (GF (toInt32 (xs ! i)) + GF (toInt32 (xs ! j)))))"
  (is "snd (fold ?f _ _) = _")
proof (induction m)
  case 0
  show ?case by simp
next
  case (Suc m)
  obtain nm dn where st: "fold ?f [0..<m] (a, d) = (nm, dn)"
    by (cases "fold ?f [0..<m] (a, d)") auto
  with Suc have dn: "dn = rep (GF d * (\<Prod>j\<in>{..<m} - {i}. (GF (toInt32 (xs ! i)) + GF (toInt32 (xs ! j)))))"
    by simp
  show ?case
    using st dn by (cases "m = i") (auto simp: lessThan_Suc_minus gfMul_rep GF_xor mult_ac)
qed

lemma lagrangeDen:
  "snd (lagrangeNumDen xs i)
   = rep (\<Prod>j\<in>{..<length xs} - {i}. (GF (toInt32 (xs ! i)) + GF (toInt32 (xs ! j))))"
  unfolding lagrangeNumDen_def by (simp only: lagrangeDen_fold GF_1 mult_1)

text \<open>Numerator and denominator when every x-coordinate is defined.\<close>

lemma lagrangeNumDen_fold:
  assumes "m \<le> length x"
  shows "fold (\<lambda>j (numerator, denominator).
             if i \<noteq> j
             then (gfMulU numerator (map Some x ! j), gfMul denominator (toInt32 (map Some x ! i) XOR toInt32 (map Some x ! j)))
             else (numerator, denominator)) [0..<m] (Some a, d)
   = (Some (rep (GF a * (\<Prod>j\<in>{..<m} - {i}. GF (x ! j)))),
      rep (GF d * (\<Prod>j\<in>{..<m} - {i}. (GF (toInt32 (map Some x ! i)) + GF (x ! j)))))"
  (is "fold ?f _ _ = _")
  using assms
proof (induction m)
  case 0
  show ?case by simp
next
  case (Suc m)
  then have m: "m < length x" by simp
  from Suc have st: "fold ?f [0..<m] (Some a, d)
     = (Some (rep (GF a * (\<Prod>j\<in>{..<m} - {i}. GF (x ! j)))),
      rep (GF d * (\<Prod>j\<in>{..<m} - {i}. (GF (toInt32 (map Some x ! i)) + GF (x ! j)))))"
    by simp
  show ?case
    using st m
    by (cases "m = i")
       (auto simp: lessThan_Suc_minus gfMul_rep GF_xor mult_ac gfMulU_Some toInt32_def)
qed

lemma lagrangeNumDen_Some:
  assumes "i < length x"
  shows "lagrangeNumDen (map Some x) i
   = (Some (rep (\<Prod>j\<in>{..<length x} - {i}. GF (x ! j))),
      rep (\<Prod>j\<in>{..<length x} - {i}. (GF (x ! i) + GF (x ! j))))"
  unfolding lagrangeNumDen_def 
  using lagrangeNumDen_fold[OF order_refl, where x = x and i = i and a = 1 and d = 1] assms
  by (simp add: GF_1 toInt32_def)

text \<open>The loop over the shares at one byte position.\<close>

definition interpStep :: "byte list list \<Rightarrow> byte option list \<Rightarrow> nat \<Rightarrow> nat \<Rightarrow> error + byte \<Rightarrow> error + byte" where
  "interpStep shares xs byteIdx i acc = (case acc of Inl e \<Rightarrow> Inl e
             | Inr result \<Rightarrow>
                 (case lagrangeNumDen xs i of (numerator, denominator) \<Rightarrow>
                    (case gfDivU numerator denominator of Inl e \<Rightarrow> Inl e
                     | Inr lagrangeCoeff \<Rightarrow>
                         Inr (result XOR toInt32 (gfMulU (byteAt (shares ! i) (byteIdx + 1)) lagrangeCoeff)))))"

lemma interpolateByte_alt:
  "interpolateByte shares xs byteIdx = fold (interpStep shares xs byteIdx) [0..<length shares] (Inr 0)"
  unfolding interpolateByte_def interpStep_def ..

lemma interpStep_Inl [simp]: "interpStep shares xs b i (Inl e) = Inl e"
  by (simp add: interpStep_def)

lemma interpStep_Inr:
  "lagrangeNumDen xs i = (nm, dn) \<Longrightarrow> gfDivU nm dn = Inr c \<Longrightarrow>
   interpStep shares xs b i (Inr r) = Inr (r XOR toInt32 (gfMulU (byteAt (shares ! i) (b + 1)) c))"
  by (simp add: interpStep_def)

lemma interpStep_err:
  "lagrangeNumDen xs i = (nm, dn) \<Longrightarrow> gfDivU nm dn = Inl e \<Longrightarrow>
   interpStep shares xs b i (Inr r) = Inl e"
  by (simp add: interpStep_def)

lemma gfDivU_zero [simp]: "gfDivU a 0 = Inl divErr"
  by (simp add: gfDivU_def divErr_def)

lemma gfDivU_Some: "d \<noteq> 0 \<Longrightarrow> gfDivU (Some a) d = Inr (Some (rep (GF a / GF d)))"
  by (simp add: gfDivU_def gfDiv_field)

lemma gfDivU_nz: "d \<noteq> 0 \<Longrightarrow> \<exists>c. gfDivU a d = Inr c"
  by (cases a) (simp_all add: gfDivU_Some, simp add: gfDivU_def)

lemma interp_fold_ok:
  assumes "\<And>i. i < m \<Longrightarrow> snd (lagrangeNumDen xs i) \<noteq> 0"
  shows "\<exists>v. fold (interpStep shares xs b) [0..<m] (Inr 0) = Inr v"
  using assms
proof (induction m)
  case 0
  show ?case by simp
next
  case (Suc m)
  then obtain v where v: "fold (interpStep shares xs b) [0..<m] (Inr 0) = Inr v" by auto
  obtain nm dn where nd: "lagrangeNumDen xs m = (nm, dn)" by (cases "lagrangeNumDen xs m") auto
  with Suc.prems[of m] have "dn \<noteq> 0" by simp
  from gfDivU_nz[OF this, of nm] obtain c where "gfDivU nm dn = Inr c" by blast
  from interpStep_Inr[OF nd this] show ?case by (simp add: v)
qed

lemma interp_fold_err:
  assumes "\<exists>i<m. snd (lagrangeNumDen xs i) = 0"
  shows "fold (interpStep shares xs b) [0..<m] (Inr 0) = Inl divErr"
  using assms
proof (induction m)
  case 0
  then show ?case by simp
next
  case (Suc m)
  show ?case
  proof (cases "\<exists>j<m. snd (lagrangeNumDen xs j) = 0")
    case True
    then have "fold (interpStep shares xs b) [0..<m] (Inr 0) = Inl divErr" by (rule Suc.IH)
    then show ?thesis by simp
  next
    case False
    then have "\<And>j. j < m \<Longrightarrow> snd (lagrangeNumDen xs j) \<noteq> 0" by blast
    from interp_fold_ok[OF this] obtain v where v: "fold (interpStep shares xs b) [0..<m] (Inr 0) = Inr v"
      by blast
    from False Suc.prems have "snd (lagrangeNumDen xs m) = 0" by (auto simp: less_Suc_eq)
    then obtain nm where nd: "lagrangeNumDen xs m = (nm, 0)" by (cases "lagrangeNumDen xs m") auto
    from interpStep_err[OF nd gfDivU_zero] show ?thesis by (simp add: v)
  qed
qed

text \<open>The loop over the byte positions.\<close>

definition byteStep :: "(nat \<Rightarrow> error + byte) \<Rightarrow> nat \<Rightarrow> error + byte list \<Rightarrow> error + byte list" where
  "byteStep f byteIdx acc = (case acc of Inl e \<Rightarrow> Inl e
       | Inr secret \<Rightarrow> (case f byteIdx of Inl e \<Rightarrow> Inl e
                         | Inr result \<Rightarrow> Inr (secret[byteIdx := result])))"

lemma byteStep_Inl [simp]: "byteStep f b (Inl e) = Inl e"
  by (simp add: byteStep_def)

lemma byteStep_Inr: "f b = Inr v \<Longrightarrow> byteStep f b (Inr sec) = Inr (sec[b := v])"
  by (simp add: byteStep_def)

lemma byteStep_err: "f b = Inl e \<Longrightarrow> byteStep f b (Inr sec) = Inl e"
  by (simp add: byteStep_def)

lemma byteStep_fold_Inl [simp]: "fold (byteStep f) bs (Inl e) = Inl e"
  by (induction bs) simp_all

lemma byteStep_fold_ok:
  assumes "\<And>b. b < m \<Longrightarrow> f b = Inr (g b)" "m \<le> sl"
  shows "fold (byteStep f) [0..<m] (Inr (replicate sl 0))
       = Inr (map g [0..<m] @ replicate (sl - m) 0)"
  using assms
proof (induction m)
  case 0
  show ?case by simp
next
  case (Suc m)
  then have IH: "fold (byteStep f) [0..<m] (Inr (replicate sl 0)) = Inr (map g [0..<m] @ replicate (sl - m) 0)"
    by simp
  have "sl - m = Suc (sl - Suc m)" using Suc.prems(2) by simp
  then have "(replicate (sl - m) (0::byte))[0 := v] = v # replicate (sl - Suc m) 0" for v by simp
  then show ?case using byteStep_Inr[of f m "g m"] Suc.prems(1)[of m]
    by (simp add: IH list_update_append)
qed

lemma byteStep_fold_err:
  assumes "f 0 = Inl e" "0 < sl"
  shows "fold (byteStep f) [0..<sl] (Inr sec) = Inl e"
proof -
  have "[0..<sl] = 0 # [1..<sl]" using assms(2) by (simp add: upt_rec)
  then show ?thesis using byteStep_err[where f = f and b = 0 and e = e and sec = sec] assms(1) by simp
qed

lemma reconstructSecret_alt:
  "reconstructSecret shares =
     (if length shares < 2 then Inl (Error ''Need at least 2 shares'')
      else if shares ! 0 = [] then Inl (RangeError ''Invalid typed array length: -1'')
      else fold (byteStep (interpolateByte shares (map (\<lambda>s. byteAt s 0) shares)))
             [0..<length (shares ! 0) - 1] (Inr (replicate (length (shares ! 0) - 1) 0)))"
  unfolding reconstructSecret_def byteStep_def Let_def by simp

lemma GF_plus_eq_0_iff: "GF a + GF b = 0 \<longleftrightarrow> a = b"
proof
  assume "GF a + GF b = 0"
  then have "a XOR b = 0" by (simp add: plus_gf256_def)
  then have "(a XOR b) XOR b = b" by simp
  then show "a = b" by (simp add: xor.assoc)
next
  assume "a = b"
  then show "GF a + GF b = 0" by (simp add: plus_gf256_def)
qed

lemma rep_eq_0_iff: "rep a = 0 \<longleftrightarrow> a = 0"
  by (cases a) simp

lemma xcoords_nonempty:
  assumes "\<forall>s\<in>set shares. s \<noteq> []"
  shows "map (\<lambda>s. byteAt s 0) shares = map Some (map hd shares)"
  using assms by (induction shares) (simp_all add: byteAt_def hd_conv_nth)

lemma lagrangeDen_zero_iff:
  assumes "i < length x"
  shows "snd (lagrangeNumDen (map Some x) i) = 0 \<longleftrightarrow> (\<exists>j<length x. j \<noteq> i \<and> x ! i = x ! j)"
proof -
  have "snd (lagrangeNumDen (map Some x) i) = 0
      \<longleftrightarrow> (\<Prod>j\<in>{..<length x} - {i}. (GF (x ! i) + GF (x ! j))) = 0"
    using assms by (simp add: lagrangeNumDen_Some rep_eq_0_iff)
  also have "\<dots> \<longleftrightarrow> (\<exists>j\<in>{..<length x} - {i}. GF (x ! i) + GF (x ! j) = 0)"
    by (simp add: prod_zero_iff)
  also have "\<dots> \<longleftrightarrow> (\<exists>j<length x. j \<noteq> i \<and> x ! i = x ! j)"
    by (auto simp: GF_plus_eq_0_iff)
  finally show ?thesis .
qed

lemma distinct_iff_den_nonzero:
  "distinct x \<longleftrightarrow> (\<forall>i<length x. snd (lagrangeNumDen (map Some x) i) \<noteq> 0)"
  unfolding distinct_conv_nth by (auto simp: lagrangeDen_zero_iff)

lemma reconstructSecret_distinct:
  assumes len: "2 \<le> length shares" and ne: "\<forall>s\<in>set shares. s \<noteq> []"
    and d: "distinct (map hd shares)"
  shows "\<exists>secret. reconstructSecret shares = Inr secret \<and> length secret = length (shares ! 0) - 1"
proof -
  let ?xs = "map (\<lambda>s. byteAt s 0) shares"
  let ?f = "interpolateByte shares ?xs"
  have xs: "?xs = map Some (map hd shares)" by (rule xcoords_nonempty[OF ne])
  have den: "snd (lagrangeNumDen ?xs i) \<noteq> 0" if "i < length shares" for i
    using d that unfolding xs distinct_iff_den_nonzero by simp
  have "\<exists>v. ?f b = Inr v" for b
    unfolding interpolateByte_alt by (rule interp_fold_ok) (rule den)
  then obtain g where g: "\<And>b. ?f b = Inr (g b)" by metis
  have "0 < length shares" using len by linarith
  then have "shares ! 0 \<in> set shares" by (rule nth_mem)
  then have s0: "shares ! 0 \<noteq> []" using ne by blast
  have "reconstructSecret shares = Inr (map g [0..<length (shares ! 0) - 1])"
    using len s0 byteStep_fold_ok[of "length (shares ! 0) - 1" ?f g "length (shares ! 0) - 1"] g
    by (simp add: reconstructSecret_alt)
  then show ?thesis by simp
qed

lemma reconstructSecret_duplicate:
  assumes len: "2 \<le> length shares" and ne: "\<forall>s\<in>set shares. s \<noteq> []"
    and d: "\<not> distinct (map hd shares)" and l0: "1 < length (shares ! 0)"
  shows "reconstructSecret shares = Inl (Error ''Division by zero in GF(256)'')"
proof -
  let ?xs = "map (\<lambda>s. byteAt s 0) shares"
  let ?f = "interpolateByte shares ?xs"
  have xs: "?xs = map Some (map hd shares)" by (rule xcoords_nonempty[OF ne])
  from d obtain i where "i < length shares" "snd (lagrangeNumDen ?xs i) = 0"
    unfolding xs distinct_iff_den_nonzero by auto
  then have "?f 0 = Inl divErr"
    unfolding interpolateByte_alt by (intro interp_fold_err) blast
  then have "fold (byteStep ?f) [0..<length (shares ! 0) - 1] (Inr (replicate (length (shares ! 0) - 1) 0))
      = Inl divErr"
    using l0 by (intro byteStep_fold_err) simp_all
  moreover have "shares ! 0 \<noteq> []" using l0 by auto
  ultimately show ?thesis using len by (simp add: reconstructSecret_alt divErr_def)
qed

text \<open>The value interpolated at one byte position, for shares that reach this position.\<close>

definition lagrangeCoeffAt0 :: "byte list \<Rightarrow> nat \<Rightarrow> gf256" where
  "lagrangeCoeffAt0 x i =
     (\<Prod>j\<in>{..<length x} - {i}. GF (x ! j)) / (\<Prod>j\<in>{..<length x} - {i}. (GF (x ! i) + GF (x ! j)))"

lemma interp_fold_value:
  assumes den: "\<And>i. i < length x \<Longrightarrow> snd (lagrangeNumDen (map Some x) i) \<noteq> 0"
    and m: "m \<le> length x"
    and rd: "\<And>i. i < m \<Longrightarrow> b + 1 < length (shares ! i)"
  shows "fold (interpStep shares (map Some x) b) [0..<m] (Inr 0)
       = Inr (rep (\<Sum>i<m. GF (shares ! i ! (b + 1)) * lagrangeCoeffAt0 x i))"
  using m rd
proof (induction m)
  case 0
  show ?case by simp
next
  case (Suc m)
  then have mm: "m < length x" by simp
  have IH: "fold (interpStep shares (map Some x) b) [0..<m] (Inr 0)
       = Inr (rep (\<Sum>i<m. GF (shares ! i ! (b + 1)) * lagrangeCoeffAt0 x i))"
    using Suc by simp
  let ?N = "\<Prod>j\<in>{..<length x} - {m}. GF (x ! j)"
  let ?D = "\<Prod>j\<in>{..<length x} - {m}. (GF (x ! m) + GF (x ! j))"
  have nd: "lagrangeNumDen (map Some x) m = (Some (rep ?N), rep ?D)"
    by (rule lagrangeNumDen_Some[OF mm])
  have "rep ?D \<noteq> 0" using den[OF mm] nd by simp
  then have dv: "gfDivU (Some (rep ?N)) (rep ?D) = Inr (Some (rep (lagrangeCoeffAt0 x m)))"
    by (simp add: gfDivU_Some lagrangeCoeffAt0_def)
  have ba: "byteAt (shares ! m) (Suc b) = Some (shares ! m ! Suc b)"
    using Suc.prems(2)[of m] by (simp add: byteAt_def)
  have "fold (interpStep shares (map Some x) b) [0..<Suc m] (Inr 0)
      = Inr (rep (\<Sum>i<m. GF (shares ! i ! (b + 1)) * lagrangeCoeffAt0 x i)
             XOR toInt32 (gfMulU (Some (shares ! m ! (b + 1))) (Some (rep (lagrangeCoeffAt0 x m)))))"
    using interpStep_Inr[OF nd dv, of shares b] by (simp add: IH ba)
  also have "rep (\<Sum>i<m. GF (shares ! i ! (b + 1)) * lagrangeCoeffAt0 x i)
             XOR toInt32 (gfMulU (Some (shares ! m ! (b + 1))) (Some (rep (lagrangeCoeffAt0 x m))))
      = rep (\<Sum>i<Suc m. GF (shares ! i ! (b + 1)) * lagrangeCoeffAt0 x i)"
    by (simp add: gfMulU_Some toInt32_def gfMul_rep xor_rep add.commute)
  finally show ?case .
qed

lemma lagrange_at_zero_gf256:
  fixes X :: "nat \<Rightarrow> gf256"
  assumes inj: "inj_on X {..<n}" and k: "k \<le> n" "0 < k"
  shows "(\<Sum>i<n. (\<Sum>m<k. c m * X i ^ m)
            * ((\<Prod>j\<in>{..<n} - {i}. X j) / (\<Prod>j\<in>{..<n} - {i}. (X i + X j)))) = c 0"
proof -
  have "(\<Prod>j\<in>{..<n} - {i}. X j) / (\<Prod>j\<in>{..<n} - {i}. (X i + X j))
      = (\<Prod>j\<in>{..<n} - {i}. (0 - X j) / (X i - X j))" for i
    by (simp add: prod_dividef gf_minus_eq_plus)
  then have "(\<Sum>i<n. (\<Sum>m<k. c m * X i ^ m)
            * ((\<Prod>j\<in>{..<n} - {i}. X j) / (\<Prod>j\<in>{..<n} - {i}. (X i + X j))))
      = (\<Sum>i<n. (\<Sum>m<k. c m * X i ^ m) * (\<Prod>j\<in>{..<n} - {i}. (0 - X j) / (X i - X j)))"
    by simp
  also have "\<dots> = (\<Sum>m<k. c m * 0 ^ m)"
    by (rule lagrange_interpolation[OF inj k(1)])
  also have "\<dots> = (\<Sum>m<k. if m = 0 then c 0 else 0)"
    by (intro sum.cong refl) (simp add: power_0_left)
  also have "\<dots> = c 0" using k(2) by simp
  finally show ?thesis .
qed

lemma shareRow_full:
  "shareRow secret k r (length secret) i
   = of_nat (i + 1) # map (\<lambda>b. evaluatePolynomial (coeffsOf secret k r b) (of_nat (i + 1))) [0..<length secret]"
  by (simp add: shareRow_def)

lemma coeffsOf_length: "0 < k \<Longrightarrow> length (coeffsOf secret k r b) = k"
  by (simp add: coeffsOf_def)

lemma coeffsOf_0: "coeffsOf secret k r b ! 0 = secret ! b"
  by (simp add: coeffsOf_def)

lemma of_nat_byte_inj:
  assumes "i < 256" "j < 256" "(of_nat i :: byte) = of_nat j"
  shows "i = j"
proof -
  have i: "unat (of_nat i :: byte) = i" using assms(1) by (simp add: unat_of_nat)
  have j: "unat (of_nat j :: byte) = j" using assms(2) by (simp add: unat_of_nat)
  have "unat (of_nat i :: byte) = unat (of_nat j :: byte)" by (simp only: assms(3))
  then show ?thesis by (simp only: i j)
qed

lemma reconstruct_of_split_rows:
  assumes k: "0 < k" "k \<le> length sub" and two: "2 \<le> length sub"
    and rows: "\<And>t. t < length sub \<Longrightarrow> idx t < 255 \<and> sub ! t = shareRow secret k r (length secret) (idx t)"
    and dist: "distinct sub"
  shows "reconstructSecret sub = Inr secret"
proof -
  define L where "L = length secret"
  define x where "x = map hd sub"
  define X where "X = (\<lambda>t. GF (x ! t))"
  have lx: "length x = length sub" by (simp add: x_def)
  have subt: "sub ! t = of_nat (idx t + 1)
      # map (\<lambda>b. evaluatePolynomial (coeffsOf secret k r b) (of_nat (idx t + 1))) [0..<L]"
    if "t < length sub" for t
    using rows[OF that] by (simp add: shareRow_full L_def)
  have xt: "x ! t = of_nat (idx t + 1)" if "t < length sub" for t
    using that subt[OF that] by (simp add: x_def)
  have lent: "length (sub ! t) = L + 1" if "t < length sub" for t
    using subt[OF that] by simp
  have ne: "\<forall>s\<in>set sub. s \<noteq> []"
  proof
    fix s assume "s \<in> set sub"
    then obtain t where "t < length sub" "s = sub ! t" by (auto simp: in_set_conv_nth)
    then show "s \<noteq> []" using subt[of t] by simp
  qed
  have dx: "distinct x"
    unfolding distinct_conv_nth
  proof (intro allI impI)
    fix t u assume tu: "t < length x" "u < length x" "t \<noteq> u"
    show "x ! t \<noteq> x ! u"
    proof
      assume "x ! t = x ! u"
      then have "(of_nat (idx t + 1) :: byte) = of_nat (idx u + 1)"
        using tu lx by (simp add: xt)
      moreover have "idx t + 1 < 256" "idx u + 1 < 256" using rows[of t] rows[of u] tu lx by simp_all
      ultimately have "idx t + 1 = idx u + 1" by (rule of_nat_byte_inj[rotated 2])
      then have "sub ! t = sub ! u" using rows[of t] rows[of u] tu lx by simp
      then show False using dist tu lx by (simp add: nth_eq_iff_index_eq)
    qed
  qed
  have den: "snd (lagrangeNumDen (map Some x) i) \<noteq> 0" if "i < length x" for i
    using dx that unfolding distinct_iff_den_nonzero by simp
  have injX: "inj_on X {..<length sub}"
    using dx lx by (auto simp: inj_on_def X_def nth_eq_iff_index_eq)
  have xs: "map (\<lambda>s. byteAt s 0) sub = map Some x"
    unfolding x_def by (rule xcoords_nonempty[OF ne])
  have val: "interpolateByte sub (map Some x) b = Inr (secret ! b)" if b: "b < L" for b
  proof -
    define c where "c = (\<lambda>m. GF (coeffsOf secret k r b ! m))"
    have rd: "b + 1 < length (sub ! i)" if "i < length sub" for i
      using lent[OF that] b by simp
    have y: "GF (sub ! i ! (b + 1)) = (\<Sum>m<k. c m * X i ^ m)" if "i < length sub" for i
    proof -
      have "sub ! i ! (b + 1) = evaluatePolynomial (coeffsOf secret k r b) (x ! i)"
        using subt[OF that] xt[OF that] b by simp
      then show ?thesis
        using k(1) by (simp add: evaluatePolynomial_sum coeffsOf_length c_def X_def)
    qed
    have "interpolateByte sub (map Some x) b
        = Inr (rep (\<Sum>i<length sub. GF (sub ! i ! (b + 1)) * lagrangeCoeffAt0 x i))"
      unfolding interpolateByte_alt
      using interp_fold_value[OF den, of "length sub" b sub] rd lx by simp
    also have "(\<Sum>i<length sub. GF (sub ! i ! (b + 1)) * lagrangeCoeffAt0 x i)
        = (\<Sum>i<length sub. (\<Sum>m<k. c m * X i ^ m)
            * ((\<Prod>j\<in>{..<length sub} - {i}. X j) / (\<Prod>j\<in>{..<length sub} - {i}. (X i + X j))))"
    proof (rule sum.cong[OF refl])
      fix i assume "i \<in> {..<length sub}"
      then have i: "i < length sub" by simp
      show "GF (sub ! i ! (b + 1)) * lagrangeCoeffAt0 x i
          = (\<Sum>m<k. c m * X i ^ m)
            * ((\<Prod>j\<in>{..<length sub} - {i}. X j) / (\<Prod>j\<in>{..<length sub} - {i}. (X i + X j)))"
        by (simp only: y[OF i] lagrangeCoeffAt0_def lx X_def)
    qed
    also have "\<dots> = c 0"
      by (rule lagrange_at_zero_gf256[OF injX k(2) k(1)])
    finally show ?thesis by (simp add: c_def coeffsOf_0)
  qed
  have pos: "0 < length sub" using two by linarith
  have l0: "length (sub ! 0) - 1 = L" using lent[OF pos] by simp
  have s0: "sub ! 0 \<noteq> []" using lent[OF pos] by auto
  have "fold (byteStep (interpolateByte sub (map Some x))) [0..<L] (Inr (replicate L 0))
      = Inr (map (\<lambda>b. secret ! b) [0..<L] @ replicate (L - L) 0)"
    by (rule byteStep_fold_ok) (simp_all add: val)
  also have "map (\<lambda>b. secret ! b) [0..<L] @ replicate (L - L) 0 = secret"
    by (simp add: L_def map_nth)
  finally show ?thesis
    using two s0 l0 by (simp add: reconstructSecret_alt xs)
qed

lemma split_rows:
  assumes p: "2 \<le> k" "k \<le> n" "n \<le> 255"
    and sp: "splitSecret secret n k r = Inr shares"
    and s: "s \<in> set shares"
  shows "\<exists>i<255. s = shareRow secret (nat k) r (length secret) i"
proof -
  have "shares = sharesUpto secret (nat n) (nat k) r (length secret)"
    using splitSecret_eq[OF p, of secret r] sp by simp
  with s obtain i where "i < nat n" "s = shareRow secret (nat k) r (length secret) i"
    by (auto simp: sharesUpto_def)
  moreover have "nat n \<le> 255" using p by simp
  ultimately show ?thesis by (intro exI[of _ i]) simp
qed

text \<open>
  Claim C1. For every secret, every \<open>(n, k)\<close> with \<open>2 \<le> k \<le> n \<le> 255\<close>, every outcome of
  the random draws, and every selection of exactly \<open>k\<close> different shares of
  \<open>splitSecret secret n k\<close>, in any order, \<open>reconstructSecret\<close> returns the secret.
\<close>

theorem split_reconstruct_roundtrip:
  assumes "2 \<le> k" "k \<le> n" "n \<le> 255"
    and "splitSecret secret n k r = Inr shares"
    and "set sub \<subseteq> set shares" "distinct sub" "length sub = nat k"
  shows "reconstructSecret sub = Inr secret"
proof -
  have "\<forall>t<length sub. \<exists>i<255. sub ! t = shareRow secret (nat k) r (length secret) i"
    using split_rows[OF assms(1-4)] assms(5) by (auto simp: subset_iff)
  then obtain idx where idx:
    "\<And>t. t < length sub \<Longrightarrow> idx t < 255 \<and> sub ! t = shareRow secret (nat k) r (length secret) (idx t)"
    by metis
  show ?thesis
    by (rule reconstruct_of_split_rows[where k = "nat k" and idx = idx and r = r])
       (use assms idx in simp_all)
qed


section \<open>Splitting and reconstructing\<close>

lemma split_example: "splitSecret [5] 3 2 (\<lambda>_. 1) = Inr [[1, 4], [2, 7], [3, 6]]"
  by (simp add: splitSecret_eq sharesUpto_def shareRow_def coeffsOf_def evaluatePolynomial_def
        upt_rec gfMul_2 gfMul_3 xtime_def mul3_def)

theorem split_reconstruct_roundtrip_witness:
  "(2::int) \<le> 2 \<and> (2::int) \<le> 3 \<and> (3::int) \<le> 255
   \<and> splitSecret [5] 3 2 (\<lambda>_. 1) = Inr [[1, 4], [2, 7], [3, 6]]
   \<and> set [[3, 6], [1, 4::byte]] \<subseteq> set [[1, 4], [2, 7], [3, 6]]
   \<and> distinct [[3, 6], [1, 4::byte]] \<and> length [[3, 6], [1, 4::byte]] = nat 2
   \<and> reconstructSecret [[3, 6], [1, 4]] = Inr [5]"
proof -
  have "reconstructSecret [[3, 6], [1, 4]] = Inr [5]"
    by (rule split_reconstruct_roundtrip[where n = 3 and k = 2 and r = "\<lambda>_. 1"
          and shares = "[[1, 4], [2, 7], [3, 6]]"])
       (simp_all add: split_example)
  then show ?thesis by (simp add: split_example)
qed

text \<open>
  The spec's reading of a share byte: the value at \<open>x\<close> of the polynomial with coefficient
  list \<open>cs\<close>, the sum over \<open>m\<close> of \<open>cs[m] \<cdot> x\<^sup>m\<close> in GF(256).
\<close>

definition gfPow :: "byte \<Rightarrow> nat \<Rightarrow> byte" where
  "gfPow x m = (gfMul x ^^ m) 1"

definition polyValue :: "byte list \<Rightarrow> byte \<Rightarrow> byte" where
  "polyValue cs x = fold (\<lambda>m acc. acc XOR gfMul (cs ! m) (gfPow x m)) [0..<length cs] 0"

lemma GF_gfPow: "GF (gfPow x m) = GF x ^ m"
  by (induction m) (simp_all add: gfPow_def GF_1 GF_gfMul)

lemma polyValue_fold:
  "fold (\<lambda>m acc. acc XOR gfMul (cs ! m) (gfPow x m)) [0..<n] 0
   = rep (\<Sum>m<n. GF (cs ! m) * GF x ^ m)"
  by (induction n) (simp_all add: xor_rep gfMul_rep GF_gfPow)

lemma evaluatePolynomial_polyValue: "evaluatePolynomial cs x = polyValue cs x"
  by (simp add: evaluatePolynomial_sum polyValue_def polyValue_fold)

text \<open>
  Claim C7. For \<open>2 \<le> k \<le> n \<le> 255\<close>, \<open>splitSecret\<close> returns exactly \<open>n\<close> shares, each
  of length \<open>L + 1\<close>; byte 0 of share \<open>i\<close> is \<open>i + 1\<close>, so the x-coordinates are
  \<open>1, \<dots>, n\<close> and differ from share to share. Byte \<open>b + 1\<close> of share \<open>i\<close> is the value at
  \<open>x = i + 1\<close> of the polynomial of byte position \<open>b\<close>, whose \<open>k\<close> coefficients are the
  array the code builds in round \<open>b\<close>: coefficient 0 is \<open>secret[b]\<close> and coefficients
  \<open>1, \<dots>, k - 1\<close> are the \<open>k - 1\<close> bytes drawn from the random source in that round, the
  bytes \<open>b (k - 1), \<dots>, b (k - 1) + k - 2\<close> of the stream \<open>r\<close>.
\<close>

theorem splitSecret_shares:
  assumes "2 \<le> k" "k \<le> n" "n \<le> 255"
  shows "\<exists>shares. splitSecret secret n k r = Inr shares
    \<and> length shares = nat n
    \<and> (\<forall>i<nat n. length (shares ! i) = length secret + 1 \<and> shares ! i ! 0 = of_nat (i + 1))
    \<and> map (\<lambda>s. unat (s ! 0)) shares = [1..<nat n + 1]
    \<and> distinct (map (\<lambda>s. s ! 0) shares)
    \<and> (\<forall>b<length secret.
          length (secret ! b # map (\<lambda>j. r (b * (nat k - 1) + j)) [0..<nat k - 1]) = nat k
          \<and> (\<forall>i<nat n. shares ! i ! (b + 1)
                = polyValue (secret ! b # map (\<lambda>j. r (b * (nat k - 1) + j)) [0..<nat k - 1])
                    (of_nat (i + 1))))"
proof -
  define shares where "shares = sharesUpto secret (nat n) (nat k) r (length secret)"
  have sp: "splitSecret secret n k r = Inr shares"
    unfolding shares_def by (rule splitSecret_eq[OF assms])
  have len: "length shares = nat n" by (simp add: shares_def sharesUpto_length)
  have row: "shares ! i = of_nat (i + 1)
      # map (\<lambda>b. evaluatePolynomial (coeffsOf secret (nat k) r b) (of_nat (i + 1))) [0..<length secret]"
    if "i < nat n" for i
    using that by (simp add: shares_def sharesUpto_nth shareRow_full)
  have n255: "nat n \<le> 255" using assms by simp
  have x: "unat (shares ! i ! 0) = i + 1" if "i < nat n" for i
  proof -
    have "unat (of_nat (i + 1) :: byte) = i + 1"
      unfolding unat_of_nat using that n255 by simp
    then show ?thesis by (simp only: row[OF that] nth_Cons_0)
  qed
  have xs: "map (\<lambda>s. unat (s ! 0)) shares = [1..<nat n + 1]"
  proof (rule nth_equalityI)
    show "length (map (\<lambda>s. unat (s ! 0)) shares) = length [1..<nat n + 1]"
      by (simp add: len)
    fix i assume "i < length (map (\<lambda>s. unat (s ! 0)) shares)"
    then have i: "i < nat n" by (simp add: len)
    have "[1..<nat n + 1] ! i = 1 + i" using i by (intro nth_upt) simp
    then show "map (\<lambda>s. unat (s ! 0)) shares ! i = [1..<nat n + 1] ! i"
      using i len x[OF i] by (simp del: upt_Suc)
  qed
  have "distinct (map unat (map (\<lambda>s. s ! 0) shares))"
    using xs by (simp add: o_def)
  then have dist: "distinct (map (\<lambda>s. s ! 0) shares)"
    using distinct_map[of unat "map (\<lambda>s. s ! 0) shares"] by blast
  have co: "secret ! b # map (\<lambda>j. r (b * (nat k - 1) + j)) [0..<nat k - 1] = coeffsOf secret (nat k) r b"
    for b by (simp add: coeffsOf_def)
  have poly: "length (coeffsOf secret (nat k) r b) = nat k
          \<and> (\<forall>i<nat n. shares ! i ! (b + 1) = polyValue (coeffsOf secret (nat k) r b) (of_nat (i + 1)))"
    if "b < length secret" for b
    using that assms(1) by (simp add: coeffsOf_length row evaluatePolynomial_polyValue)
  show ?thesis
    unfolding co using sp len xs dist poly by (intro exI[of _ shares]) (simp add: row)
qed

lemma polyValue_example: "polyValue [5, 1] 2 = 7"
  by (simp add: polyValue_def gfPow_def upt_rec)

theorem splitSecret_shares_witness:
  "(2::int) \<le> 2 \<and> (2::int) \<le> 3 \<and> (3::int) \<le> 255
   \<and> (\<exists>shares. splitSecret [5] 3 2 (\<lambda>_. 1) = Inr shares \<and> shares = [[1, 4], [2, 7], [3, 6]]
        \<and> length shares = nat 3
        \<and> map (\<lambda>s. unat (s ! 0)) shares = [1..<nat 3 + 1]
        \<and> shares ! 1 ! (0 + 1) = polyValue [5, 1] 2 \<and> polyValue [5, 1] 2 = 7)"
proof -
  from splitSecret_shares[of 2 3 "[5]" "\<lambda>_. 1"]
  obtain shares where s: "splitSecret [5] 3 2 (\<lambda>_. 1) = Inr shares" "length shares = nat 3"
    "map (\<lambda>s. unat (s ! 0)) shares = [1..<nat 3 + 1]"
    "\<forall>b<length [5::byte]. \<forall>i<nat 3. shares ! i ! (b + 1)
        = polyValue ([5] ! b # map (\<lambda>j. 1) [0..<nat 2 - 1]) (of_nat (i + 1))"
    by auto
  from s(1) have lit: "shares = [[1, 4], [2, 7], [3, 6]]" by (simp add: split_example)
  from s(4) have "shares ! 1 ! (0 + 1) = polyValue [5, 1] 2" by (simp add: upt_rec)
  with s lit show ?thesis by (simp add: polyValue_example)
qed

text \<open>The three messages that \<^verbatim>\<open>splitSecret\<close> throws are the spec's InvalidThreshold.\<close>

definition InvalidThreshold :: "error \<Rightarrow> bool" where
  "InvalidThreshold e \<longleftrightarrow>
     e \<in> {Error ''Threshold must be <= number of shares'', Error ''Threshold must be >= 2'',
          Error ''Max 255 shares''}"

text \<open>
  Claim C8. \<open>splitSecret secret n k\<close> fails, with an InvalidThreshold error, exactly when
  \<open>2 \<le> k \<le> n \<le> 255\<close> is violated; when it holds, the call succeeds for every secret.
\<close>

theorem splitSecret_threshold:
  "((\<exists>e. splitSecret secret n k r = Inl e) \<longleftrightarrow> (k < 2 \<or> k > n \<or> n > 255))
   \<and> (\<forall>e. splitSecret secret n k r = Inl e \<longrightarrow> InvalidThreshold e)
   \<and> (2 \<le> k \<and> k \<le> n \<and> n \<le> 255 \<longrightarrow> (\<exists>shares. splitSecret secret n k r = Inr shares))"
  by (auto simp: splitSecret_def InvalidThreshold_def)

theorem splitSecret_threshold_witness:
  "(\<exists>e. splitSecret [5] 2 3 (\<lambda>_. 1) = Inl e \<and> InvalidThreshold e)
   \<and> (2::int) \<le> 2 \<and> (2::int) \<le> 3 \<and> (3::int) \<le> 255
   \<and> (\<exists>shares. splitSecret [5] 3 2 (\<lambda>_. 1) = Inr shares)"
proof -
  have "\<exists>e. splitSecret [5] 2 3 (\<lambda>_. 1) = Inl e"
    using splitSecret_threshold[of "[5]" 2 3 "\<lambda>_. 1"] by simp
  then obtain e where e: "splitSecret [5] 2 3 (\<lambda>_. 1) = Inl e" by blast
  then have "InvalidThreshold e"
    using splitSecret_threshold[of "[5]" 2 3 "\<lambda>_. 1"] by blast
  moreover have "\<exists>shares. splitSecret [5] 3 2 (\<lambda>_. 1) = Inr shares"
    using splitSecret_threshold[of "[5]" 3 2 "\<lambda>_. 1"] by simp
  ultimately show ?thesis using e by auto
qed

lemma reconstructSecret_no_data:
  assumes "2 \<le> length shares" "length (shares ! 0) = 1"
  shows "reconstructSecret shares = Inr []"
proof -
  have "shares ! 0 \<noteq> []" using assms(2) by auto
  then show ?thesis using assms by (simp add: reconstructSecret_alt)
qed

text \<open>
  Claim C3 as the code has it. \<open>reconstructSecret\<close> checks only the number of shares. For
  at least two non-empty shares whose x-coordinates (byte 0) differ pairwise, whatever
  their other bytes and lengths are and whichever secrets they come from, it returns a
  byte sequence of the length of the first share minus one and raises nothing. When two
  shares have the same x-coordinate and the first share has a data byte, a Lagrange
  denominator is 0 and \<open>gfDiv\<close> throws: the division-by-zero error is raised.
\<close>

theorem reconstructSecret_unvalidated:
  assumes "2 \<le> length shares" "[] \<notin> set shares"
  shows "(distinct (map hd shares) \<or> length (shares ! 0) = 1 \<longrightarrow>
            (\<exists>secret. reconstructSecret shares = Inr secret \<and> length secret = length (shares ! 0) - 1))
       \<and> (\<not> distinct (map hd shares) \<and> 1 < length (shares ! 0) \<longrightarrow>
            reconstructSecret shares = Inl (Error ''Division by zero in GF(256)''))"
proof -
  have ne: "\<forall>s\<in>set shares. s \<noteq> []" using assms(2) by auto
  show ?thesis
    using reconstructSecret_distinct[OF assms(1) ne] reconstructSecret_duplicate[OF assms(1) ne]
      reconstructSecret_no_data[OF assms(1)]
    by auto
qed

theorem reconstructSecret_unvalidated_witness:
  "2 \<le> length [[1, 5], [2, 9::byte]] \<and> [] \<notin> set [[1, 5], [2, 9::byte]]
   \<and> distinct (map hd [[1, 5], [2, 9::byte]])
   \<and> (\<exists>secret. reconstructSecret [[1, 5], [2, 9]] = Inr secret \<and> length secret = 1)
   \<and> 2 \<le> length [[3, 1], [3, 2::byte]] \<and> [] \<notin> set [[3, 1], [3, 2::byte]]
   \<and> \<not> distinct (map hd [[3, 1], [3, 2::byte]]) \<and> 1 < length ([[3, 1], [3, 2::byte]] ! 0)
   \<and> reconstructSecret [[3, 1], [3, 2]] = Inl (Error ''Division by zero in GF(256)'')"
  using reconstructSecret_unvalidated[of "[[1, 5], [2, 9]]"]
    reconstructSecret_unvalidated[of "[[3, 1], [3, 2]]"]
  by simp

text \<open>
  The claim as the spec words it fails: two shares with the same x-coordinate make
  \<open>reconstructSecret\<close> raise the division-by-zero error of \<open>gfDiv\<close>.
\<close>

theorem reconstructSecret_duplicate_x_raises:
  "reconstructSecret [[1, 5], [1, 7]] = Inl (Error ''Division by zero in GF(256)'')"
  by (rule reconstructSecret_duplicate) simp_all


section \<open>Quorum release: the key endpoints of the API server\<close>

text \<open>
  Source: the API server (\<^verbatim>\<open>GET /api/files/shared/:shareId/key\<close> and
  \<^verbatim>\<open>GET /api/groups/:id/files/:fileId/key\<close>). A handler is a function of the stores, the
  authenticated address, the route parameters, the clock and the draws of
  \<^verbatim>\<open>Math.random()\<close>; it returns the HTTP response and what it logs.
\<close>

subsection \<open>The shuffle\<close>

text \<open>
  \<^verbatim>\<open>
  const indices = [0, 1, 2]
  for (let i = indices.length - 1; i > 0; i--) {
      const j = Math.floor(Math.random() * (i + 1));
      [indices[i], indices[j]] = [indices[j], indices[i]]
  }
  \<close>
  \<^verbatim>\<open>Math.random()\<close> returns a number \<open>r\<close> with \<open>0 \<le> r < 1\<close>; the draws are the list \<open>rs\<close>, one
  per round. A store beyond the end of a JavaScript array extends it; this happens for
  no draw in that range, and the model leaves the list as it is then.
\<close>

definition swapAt :: "nat \<Rightarrow> nat \<Rightarrow> nat list \<Rightarrow> nat list" where
  "swapAt i j xs = (xs[i := xs ! j])[j := xs ! i]"

definition shuffleIndices :: "nat list \<Rightarrow> real list \<Rightarrow> nat list" where
  "shuffleIndices indices rs =
     fold (\<lambda>(i, r) ind. swapAt i (nat \<lfloor>r * real (i + 1)\<rfloor>) ind)
          (zip (rev [1..<length indices]) rs) indices"

subsection \<open>The response\<close>

record keyResponse =
  resp_encryptionKey :: "string option"
  resp_shares :: "string list"
  resp_releasedNodes :: "string list"
  resp_threshold :: nat
  resp_totalShares :: nat

datatype response = Status nat string | Json keyResponse

text \<open>What the handler prints: the nodes released and the node withheld, or a direct release.\<close>

datatype releaseLog = ShamirRelease "string list" string | DirectRelease

definition nodeNames :: "string list" where
  "nodeNames = [''alpha'', ''beta'', ''gamma'']"

text \<open>\<^verbatim>\<open>x || null\<close> for a string field that may be absent: the empty string is falsy.\<close>

definition orNull :: "string option \<Rightarrow> string option" where
  "orNull x = (case x of None \<Rightarrow> None | Some s \<Rightarrow> if s = [] then None else Some s)"

text \<open>
  The part the two handlers have in common, from \<^verbatim>\<open>const allShares = share.shares || []\<close> to
  \<^verbatim>\<open>res.json(...)\<close>. The source has this block once in each handler.
\<close>

definition releaseKey :: "string option \<Rightarrow> string list option \<Rightarrow> real list \<Rightarrow> keyResponse \<times> releaseLog" where
  "releaseKey key sharesField rs =
     (let allShares = (case sharesField of None \<Rightarrow> [] | Some ss \<Rightarrow> ss)
      in if length allShares \<ge> 3
         then (let indices = shuffleIndices [0, 1, 2] rs;
                   picked = take 2 indices
               in (\<lparr>resp_encryptionKey = orNull key,
                    resp_shares = map (\<lambda>i. allShares ! i) picked,
                    resp_releasedNodes = map (\<lambda>i. nodeNames ! i) picked,
                    resp_threshold = 2, resp_totalShares = 3\<rparr>,
                   ShamirRelease (map (\<lambda>i. nodeNames ! i) picked) (nodeNames ! (indices ! 2))))
         else (\<lparr>resp_encryptionKey = orNull key, resp_shares = [], resp_releasedNodes = [],
                 resp_threshold = 2, resp_totalShares = 3\<rparr>, DirectRelease))"

subsection \<open>GET /api/files/shared/:shareId/key\<close>

record sharedFileItem =
  share_id :: string
  share_expiresAt :: int
  share_encryptionKey :: "string option"
  share_shares :: "string list option"

text \<open>\<open>user\<close> is what \<^verbatim>\<open>requireAuth\<close> found: the address of the token, if the token is valid.\<close>

definition getSharedKey ::
  "(string \<rightharpoonup> sharedFileItem list) \<Rightarrow> string option \<Rightarrow> string \<Rightarrow> int \<Rightarrow> real list
   \<Rightarrow> response \<times> releaseLog list" where
  "getSharedKey sharesStore user shareId now rs =
     (case user of None \<Rightarrow> (Status 401 ''Invalid or expired token'', [])
      | Some address \<Rightarrow>
         (let shared = (case sharesStore address of None \<Rightarrow> [] | Some l \<Rightarrow> l)
          in case find (\<lambda>s. share_id s = shareId) shared of
               None \<Rightarrow> (Status 404 ''Share not found'', [])
             | Some share \<Rightarrow>
                 if share_expiresAt share \<noteq> 0 \<and> share_expiresAt share > 0 \<and> share_expiresAt share < now
                 then (Status 410 ''Share has expired'', [])
                 else (case releaseKey (share_encryptionKey share) (share_shares share) rs of
                         (body, l) \<Rightarrow> (Json body, [l]))))"

subsection \<open>GET /api/groups/:id/files/:fileId/key\<close>

record groupMember =
  member_address :: string
  member_status :: string

record fileItem =
  file_id :: string
  file_groupId :: "string option"
  file_encryptionKey :: "string option"
  file_shares :: "string list option"

text \<open>
  \<^verbatim>\<open>for (const [, files] of filesStore) { const found = files.find(...); if (found) { ...; break } }\<close>:
  the store is a \<^verbatim>\<open>Map\<close>, read in insertion order.
\<close>

fun findGroupFile :: "(string \<times> fileItem list) list \<Rightarrow> string \<Rightarrow> string \<Rightarrow> fileItem option" where
  "findGroupFile [] fileId groupId = None"
| "findGroupFile ((owner, files) # rest) fileId groupId =
     (case find (\<lambda>f. file_id f = fileId \<and> file_groupId f = Some groupId) files of
        Some found \<Rightarrow> Some found
      | None \<Rightarrow> findGroupFile rest fileId groupId)"

definition getGroupFileKey ::
  "(string \<rightharpoonup> groupMember list) \<Rightarrow> (string \<times> fileItem list) list \<Rightarrow> string option \<Rightarrow> string
   \<Rightarrow> string \<Rightarrow> real list \<Rightarrow> response \<times> releaseLog list" where
  "getGroupFileKey groupsStore filesStore user groupId fileId rs =
     (case user of None \<Rightarrow> (Status 401 ''Invalid or expired token'', [])
      | Some address \<Rightarrow>
         (case groupsStore groupId of
            None \<Rightarrow> (Status 404 ''Group not found'', [])
          | Some members \<Rightarrow>
              if \<not> list_ex (\<lambda>m. member_address m = address
                      \<and> (member_status m = ''active'' \<or> member_status m = ''joined'')) members
              then (Status 403 ''Not a member of this group'', [])
              else (case findGroupFile filesStore fileId groupId of
                      None \<Rightarrow> (Status 404 ''File not found in group'', [])
                    | Some targetFile \<Rightarrow>
                        (case releaseKey (file_encryptionKey targetFile) (file_shares targetFile) rs of
                           (body, l) \<Rightarrow> (Json body, [l])))))"

lemma floor_draw:
  assumes "0 \<le> r" "r < 1"
  shows "nat \<lfloor>r * real (Suc n)\<rfloor> \<le> n"
proof -
  have "r * real (Suc n) < real (Suc n)" using assms by simp
  then have "\<lfloor>r * real (Suc n)\<rfloor> < int (Suc n)" by (simp add: floor_less_iff)
  then show ?thesis by simp
qed

lemma shuffle3:
  assumes "0 \<le> r1" "r1 < 1" "0 \<le> r2" "r2 < 1"
  shows "shuffleIndices [0, 1, 2] (r1 # r2 # rs) \<in>
     {[0, 1, 2], [0, 2, 1], [1, 0, 2], [1, 2, 0], [2, 0, 1], [2, 1, 0]}"
proof -
  have "nat \<lfloor>r1 * 3\<rfloor> \<le> 2" using floor_draw[OF assms(1,2), of 2] by simp
  then have j2: "nat \<lfloor>r1 * 3\<rfloor> = 0 \<or> nat \<lfloor>r1 * 3\<rfloor> = 1 \<or> nat \<lfloor>r1 * 3\<rfloor> = 2"
    by linarith
  have "nat \<lfloor>r2 * 2\<rfloor> \<le> 1" using floor_draw[OF assms(3,4), of 1] by simp
  then have j1: "nat \<lfloor>r2 * 2\<rfloor> = 0 \<or> nat \<lfloor>r2 * 2\<rfloor> = 1"
    by linarith
  have e: "shuffleIndices [0, 1, 2] (r1 # r2 # rs)
      = swapAt (Suc 0) (nat \<lfloor>r2 * 2\<rfloor>) (swapAt (Suc (Suc 0)) (nat \<lfloor>r1 * 3\<rfloor>) [0, 1, 2])"
    by (simp add: shuffleIndices_def upt_rec)
  show ?thesis unfolding e using j1 j2 by (elim disjE) (simp_all add: swapAt_def)
qed

text \<open>
  The order of the indices after the shuffle, read off from the two draws: row
  \<open>\<lfloor>3 r1\<rfloor>\<close>, column \<open>\<lfloor>2 r2\<rfloor>\<close>. The six entries are the six orders of 0, 1, 2, each once,
  and the last index of an entry, the one withheld, is the number of its row.
\<close>

definition shuffleOrder :: "real \<Rightarrow> real \<Rightarrow> nat list" where
  "shuffleOrder r1 r2 =
     [[[1, 2, 0], [2, 1, 0]], [[2, 0, 1], [0, 2, 1]], [[1, 0, 2], [0, 1, 2]]]
       ! nat \<lfloor>r1 * 3\<rfloor> ! nat \<lfloor>r2 * 2\<rfloor>"

lemma shuffle3_table:
  assumes "0 \<le> r1" "r1 < 1" "0 \<le> r2" "r2 < 1"
  shows "shuffleIndices [0, 1, 2] (r1 # r2 # rs) = shuffleOrder r1 r2"
proof -
  have "nat \<lfloor>r1 * 3\<rfloor> \<le> 2" using floor_draw[OF assms(1,2), of 2] by simp
  then have j2: "nat \<lfloor>r1 * 3\<rfloor> = 0 \<or> nat \<lfloor>r1 * 3\<rfloor> = 1 \<or> nat \<lfloor>r1 * 3\<rfloor> = 2"
    by linarith
  have "nat \<lfloor>r2 * 2\<rfloor> \<le> 1" using floor_draw[OF assms(3,4), of 1] by simp
  then have j1: "nat \<lfloor>r2 * 2\<rfloor> = 0 \<or> nat \<lfloor>r2 * 2\<rfloor> = 1"
    by linarith
  have e: "shuffleIndices [0, 1, 2] (r1 # r2 # rs)
      = swapAt (Suc 0) (nat \<lfloor>r2 * 2\<rfloor>) (swapAt (Suc (Suc 0)) (nat \<lfloor>r1 * 3\<rfloor>) [0, 1, 2])"
    by (simp add: shuffleIndices_def upt_rec)
  show ?thesis unfolding e shuffleOrder_def using j1 j2
    by (elim disjE) (simp_all add: swapAt_def)
qed

lemma shuffleOrder_cases:
  assumes "0 \<le> r1" "r1 < 1" "0 \<le> r2" "r2 < 1"
  shows "\<exists>i j. shuffleOrder r1 r2 = [i, j, nat \<lfloor>r1 * 3\<rfloor>] \<and> i < 3 \<and> j < 3 \<and> nat \<lfloor>r1 * 3\<rfloor> < 3
     \<and> i \<noteq> j \<and> nat \<lfloor>r1 * 3\<rfloor> \<noteq> i \<and> nat \<lfloor>r1 * 3\<rfloor> \<noteq> j"
proof -
  have "nat \<lfloor>r1 * 3\<rfloor> \<le> 2" using floor_draw[OF assms(1,2), of 2] by simp
  then have j2: "nat \<lfloor>r1 * 3\<rfloor> = 0 \<or> nat \<lfloor>r1 * 3\<rfloor> = 1 \<or> nat \<lfloor>r1 * 3\<rfloor> = 2"
    by linarith
  have "nat \<lfloor>r2 * 2\<rfloor> \<le> 1" using floor_draw[OF assms(3,4), of 1] by simp
  then have j1: "nat \<lfloor>r2 * 2\<rfloor> = 0 \<or> nat \<lfloor>r2 * 2\<rfloor> = 1"
    by linarith
  show ?thesis unfolding shuffleOrder_def using j1 j2
    by (elim disjE) simp_all
qed

lemma shuffleOrder_table_bijective:
  "distinct (concat [[[1, 2, 0], [2, 1, 0]], [[2, 0, 1], [0, 2, 1]], [[1, 0, 2], [0, 1, 2::nat]]])"
  by simp

text \<open>
  The answer of a key release, given the order \<open>[i, j, w]\<close> of the shuffle: with at least
  three shares stored, the shares and the nodes of \<open>i\<close> and \<open>j\<close>, and \<open>w\<close> withheld; with
  fewer, the stored key and no share. Threshold 2 and total 3 in both cases.
\<close>

definition quorumResponse :: "string option \<Rightarrow> string list \<Rightarrow> nat \<Rightarrow> nat \<Rightarrow> nat \<Rightarrow> response \<times> releaseLog list" where
  "quorumResponse key stored i j w =
     (if 3 \<le> length stored
      then (Json \<lparr>resp_encryptionKey = orNull key, resp_shares = [stored ! i, stored ! j],
                  resp_releasedNodes = [nodeNames ! i, nodeNames ! j],
                  resp_threshold = 2, resp_totalShares = 3\<rparr>,
            [ShamirRelease [nodeNames ! i, nodeNames ! j] (nodeNames ! w)])
      else (Json \<lparr>resp_encryptionKey = orNull key, resp_shares = [], resp_releasedNodes = [],
                  resp_threshold = 2, resp_totalShares = 3\<rparr>,
            [DirectRelease]))"

lemma releaseKey_quorumResponse:
  assumes "shuffleIndices [0, 1, 2] rs = [i, j, w]"
    and "releaseKey key sharesField rs = (body, l)"
  shows "(Json body, [l]) = quorumResponse key (case sharesField of None \<Rightarrow> [] | Some ss \<Rightarrow> ss) i j w"
  using assms by (auto simp: releaseKey_def quorumResponse_def Let_def split: if_splits)




section \<open>Share encapsulation and proxy re-encryption\<close>

text \<open>
  Source: the API server (\<^verbatim>\<open>POST /api/nodes/reencrypt\<close>, \<^verbatim>\<open>POST /api/encrypt-shares\<close>) and
  the X25519 module of the frontend (\<^verbatim>\<open>encryptForRecipient\<close>, \<^verbatim>\<open>decryptFromSender\<close>).
  The functions of tweetnacl and tweetnacl-util are not code of this repository: they are
  parameters of the model. \<^verbatim>\<open>nacl.box\<close> and \<^verbatim>\<open>nacl.box.open\<close> throw on a key or nonce of
  the wrong size; \<^verbatim>\<open>nacl.box\<close> otherwise returns the ciphertext, and \<^verbatim>\<open>nacl.box.open\<close>
  returns the plaintext, or \<^verbatim>\<open>null\<close> when authentication fails; \<^verbatim>\<open>decodeBase64\<close> throws on
  a string that is not base64.
\<close>

type_synonym bytes = "byte list"

datatype jsError = JsError string | JsTypeError string | JsOperationError string

definition errorMessage :: "jsError \<Rightarrow> string" where
  "errorMessage e = (case e of JsError m \<Rightarrow> m | JsTypeError m \<Rightarrow> m | JsOperationError m \<Rightarrow> m)"

record naclLib =
  nacl_box :: "bytes \<Rightarrow> bytes \<Rightarrow> bytes \<Rightarrow> bytes \<Rightarrow> jsError + bytes"
  nacl_box_open :: "bytes \<Rightarrow> bytes \<Rightarrow> bytes \<Rightarrow> bytes \<Rightarrow> jsError + bytes option"
  nacl_publicKey :: "bytes \<Rightarrow> bytes"
  decodeBase64 :: "string \<Rightarrow> jsError + bytes"
  encodeBase64 :: "bytes \<Rightarrow> string"

text \<open>A string field of a JSON body that may be absent; the empty string is falsy.\<close>

definition truthy :: "string option \<Rightarrow> bool" where
  "truthy x = (case x of None \<Rightarrow> False | Some s \<Rightarrow> s \<noteq> [])"

subsection \<open>POST /api/nodes/reencrypt\<close>

text \<open>
  The field \<^verbatim>\<open>encryptedShare\<close> of the body is a string or an object with the fields
  \<^verbatim>\<open>encrypted\<close> and \<^verbatim>\<open>nonce\<close>.
\<close>

datatype encryptedShareField = EncString string | EncObject "string option" "string option"

record reencryptBody =
  body_recipientPublicKey :: "string option"
  body_shareIndex :: "int option"
  body_encryptedShare :: "encryptedShareField option"
  body_senderPublicKey :: "string option"

record nodeKey =
  node_publicKey :: string
  node_secretKey :: bytes

text \<open>\<^verbatim>\<open>['alpha', 'beta', 'gamma'][shareIndex] || 'alpha'\<close>\<close>

definition nodeIdOf :: "int option \<Rightarrow> string" where
  "nodeIdOf shareIndex = (case shareIndex of None \<Rightarrow> ''alpha''
     | Some i \<Rightarrow> if 0 \<le> i \<and> i < 3 then [''alpha'', ''beta'', ''gamma''] ! nat i else ''alpha'')"

text \<open>
  Step 1, the \<^verbatim>\<open>try\<close> block: every exception in it is caught and leaves
  \<^verbatim>\<open>decryptedShare = null\<close>. \<^verbatim>\<open>encryptedShare.encrypted || encryptedShare\<close> is the object itself
  when the field is missing, and decoding an object throws;
  \<^verbatim>\<open>encryptedShare.nonce || ''\<close> is the empty string for a string or a missing field.
\<close>

definition openShare :: "naclLib \<Rightarrow> bytes \<Rightarrow> encryptedShareField option \<Rightarrow> string option \<Rightarrow> bytes option" where
  "openShare L nodeSecret encryptedShare senderPublicKey =
     (case (encryptedShare, senderPublicKey) of
        (Some es, Some spk) \<Rightarrow>
          if (case es of EncString s \<Rightarrow> s \<noteq> [] | EncObject e n \<Rightarrow> True) \<and> spk \<noteq> []
          then (case (case es of EncString s \<Rightarrow> Some s
                              | EncObject e n \<Rightarrow> if truthy e then e else None) of
                  None \<Rightarrow> None
                | Some payload \<Rightarrow>
                   (case decodeBase64 L payload of Inl err \<Rightarrow> None
                    | Inr encrypted \<Rightarrow>
                       (case decodeBase64 L (case es of EncString s \<Rightarrow> []
                                | EncObject e n \<Rightarrow> if truthy n then the n else []) of
                          Inl err \<Rightarrow> None
                        | Inr nonce \<Rightarrow>
                           (case decodeBase64 L spk of Inl err \<Rightarrow> None
                            | Inr senderPk \<Rightarrow>
                               (case nacl_box_open L encrypted nonce senderPk nodeSecret of
                                  Inl err \<Rightarrow> None
                                | Inr opened \<Rightarrow> opened)))))
          else None
      | _ \<Rightarrow> None)"

datatype reEncryptedShare = RawString string | Sealed string string

datatype reencryptResponse = ReStatus nat string | ReSuccess reEncryptedShare string string

text \<open>
  The handler. \<open>user\<close> is what \<^verbatim>\<open>requireAuth\<close> found. Step 2 runs when \<^verbatim>\<open>decryptedShare\<close> is an
  array (an empty one is truthy too) and \<^verbatim>\<open>recipientPublicKey\<close> is truthy; an exception
  there reaches the outer \<^verbatim>\<open>catch\<close>, which answers 500 with the message.
\<close>

definition reencrypt :: "naclLib \<Rightarrow> (string \<rightharpoonup> nodeKey) \<Rightarrow> string option \<Rightarrow> reencryptBody \<Rightarrow> rng \<Rightarrow> reencryptResponse" where
  "reencrypt L nodeKeys user body r =
     (case user of None \<Rightarrow> ReStatus 401 ''Invalid or expired token''
      | Some address \<Rightarrow>
         (let nodeId = nodeIdOf (body_shareIndex body)
          in case nodeKeys nodeId of
               None \<Rightarrow> ReStatus 400 ''Invalid share index''
             | Some node \<Rightarrow>
                 (case openShare L (node_secretKey node) (body_encryptedShare body) (body_senderPublicKey body) of
                    Some decryptedShare \<Rightarrow>
                      (case body_recipientPublicKey body of
                         Some rpk \<Rightarrow>
                           if rpk \<noteq> []
                           then (case decodeBase64 L rpk of
                                   Inl err \<Rightarrow> ReStatus 500 (errorMessage err)
                                 | Inr recipientPk \<Rightarrow>
                                    (case getRandomValues 24 r of (nonce, r') \<Rightarrow>
                                       (case nacl_box L decryptedShare nonce recipientPk (node_secretKey node) of
                                          Inl err \<Rightarrow> ReStatus 500 (errorMessage err)
                                        | Inr reEncrypted \<Rightarrow>
                                            ReSuccess (Sealed (encodeBase64 L nonce) (encodeBase64 L reEncrypted))
                                              nodeId (node_publicKey node))))
                           else ReSuccess (RawString ''placeholder_reencrypted_data'') nodeId (node_publicKey node)
                       | None \<Rightarrow> ReSuccess (RawString ''placeholder_reencrypted_data'') nodeId (node_publicKey node))
                  | None \<Rightarrow> ReSuccess (RawString ''placeholder_reencrypted_data'') nodeId (node_publicKey node))))"

text \<open>
  Claim C5. Whenever Step 1 fails (it is skipped, a decoding throws, or \<^verbatim>\<open>nacl.box.open\<close> throws
  or returns \<^verbatim>\<open>null\<close>), the handler answers with a success whose \<^verbatim>\<open>reEncryptedShare\<close> is the
  string \<^verbatim>\<open>placeholder_reencrypted_data\<close>, not with an error. A re-encrypted ciphertext is in
  the answer only when Step 1 has returned a share and a recipient public key is supplied;
  it is then the box of that share for the recipient's key under the node's secret key,
  with a nonce of 24 fresh random bytes.
\<close>

theorem reencrypt_placeholder:
  "nodeKeys (nodeIdOf (body_shareIndex body)) = Some node \<longrightarrow>
     (openShare L (node_secretKey node) (body_encryptedShare body) (body_senderPublicKey body) = None
        \<longrightarrow> reencrypt L nodeKeys (Some address) body r
            = ReSuccess (RawString ''placeholder_reencrypted_data'')
                (nodeIdOf (body_shareIndex body)) (node_publicKey node))
   \<and> (\<forall>n e nid pk. reencrypt L nodeKeys (Some address) body r = ReSuccess (Sealed n e) nid pk
        \<longrightarrow> (\<exists>share recipientPk c.
               openShare L (node_secretKey node) (body_encryptedShare body) (body_senderPublicKey body) = Some share
             \<and> truthy (body_recipientPublicKey body)
             \<and> decodeBase64 L (the (body_recipientPublicKey body)) = Inr recipientPk
             \<and> nacl_box L share (map r [0..<24]) recipientPk (node_secretKey node) = Inr c
             \<and> n = encodeBase64 L (map r [0..<24]) \<and> e = encodeBase64 L c
             \<and> nid = nodeIdOf (body_shareIndex body) \<and> pk = node_publicKey node))
   \<and> (\<forall>share. openShare L (node_secretKey node) (body_encryptedShare body) (body_senderPublicKey body) = Some share
        \<and> \<not> truthy (body_recipientPublicKey body)
        \<longrightarrow> reencrypt L nodeKeys (Some address) body r
            = ReSuccess (RawString ''placeholder_reencrypted_data'')
                (nodeIdOf (body_shareIndex body)) (node_publicKey node))"
  by (auto simp: reencrypt_def truthy_def getRandomValues_def Let_def
           split: option.splits sum.splits if_splits)

subsection \<open>An instance of the library parameters\<close>

text \<open>
  A library in which a box carries the recipient's public key, the sender's public key
  and the nonce in clear in front of the message, and is opened only by a call that
  presents the same three. It has the sizes of tweetnacl (keys of 32 bytes, nonces of 24)
  and shows that the assumptions made on the library below can be met.
\<close>

definition toyPublicKey :: "bytes \<Rightarrow> bytes" where
  "toyPublicKey sk = map (\<lambda>b. b + 1) sk"

definition toyBox :: "bytes \<Rightarrow> bytes \<Rightarrow> bytes \<Rightarrow> bytes \<Rightarrow> jsError + bytes" where
  "toyBox m n pk sk =
     (if length n = 24 \<and> length pk = 32 \<and> length sk = 32
      then Inr (pk @ toyPublicKey sk @ n @ m) else Inl (JsError ''bad size''))"

definition toyBoxOpen :: "bytes \<Rightarrow> bytes \<Rightarrow> bytes \<Rightarrow> bytes \<Rightarrow> jsError + bytes option" where
  "toyBoxOpen c n pk sk =
     (if length n = 24 \<and> length pk = 32 \<and> length sk = 32
      then Inr (if 88 \<le> length c \<and> take 32 c = toyPublicKey sk \<and> take 32 (drop 32 c) = pk
                   \<and> take 24 (drop 64 c) = n
                then Some (drop 88 c) else None)
      else Inl (JsError ''bad size''))"

definition toyEncode :: "bytes \<Rightarrow> string" where
  "toyEncode b = map (\<lambda>x. char_of (unat x)) b"

definition toyDecode :: "string \<Rightarrow> jsError + bytes" where
  "toyDecode s = Inr (map (\<lambda>c. of_nat (of_char c)) s)"

definition toyLib :: naclLib where
  "toyLib = \<lparr>nacl_box = toyBox, nacl_box_open = toyBoxOpen, nacl_publicKey = toyPublicKey,
             decodeBase64 = toyDecode, encodeBase64 = toyEncode\<rparr>"

lemma toyDecode_toyEncode [simp]: "toyDecode (toyEncode b) = Inr b"
proof -
  have "(of_nat (of_char (char_of (unat x) :: char)) :: byte) = x" for x :: byte
  proof -
    have "unat x < 256" using unsigned_less[of x, where 'a = nat] by simp
    then show ?thesis by simp
  qed
  then show ?thesis by (simp add: toyDecode_def toyEncode_def o_def)
qed

lemma toyEncode_length [simp]: "length (toyEncode b) = length b"
  by (simp add: toyEncode_def)

lemma toyEncode_Nil_iff [simp]: "toyEncode b = [] \<longleftrightarrow> b = []"
  by (simp add: toyEncode_def)

lemma toyPublicKey_length [simp]: "length (toyPublicKey sk) = length sk"
  by (simp add: toyPublicKey_def)

lemma toyPublicKey_Nil_iff [simp]: "toyPublicKey sk = [] \<longleftrightarrow> sk = []"
  by (simp add: toyPublicKey_def)

lemma toyLib_simps [simp]:
  "nacl_box toyLib = toyBox" "nacl_box_open toyLib = toyBoxOpen" "nacl_publicKey toyLib = toyPublicKey"
  "decodeBase64 toyLib = toyDecode" "encodeBase64 toyLib = toyEncode"
  by (simp_all add: toyLib_def)

lemma toyBoxOpen_toyBox:
  assumes "length n = 24" "length skA = 32" "length skB = 32"
  shows "toyBox m n (toyPublicKey skB) skA = Inr (toyPublicKey skB @ toyPublicKey skA @ n @ m)"
    and "toyBoxOpen (toyPublicKey skB @ toyPublicKey skA @ n @ m) n (toyPublicKey skA) skB = Inr (Some m)"
  using assms by (simp_all add: toyBox_def toyBoxOpen_def)

definition sealedRequest :: reencryptBody where
  "sealedRequest =
     \<lparr>body_recipientPublicKey = Some (toyEncode (toyPublicKey (replicate 32 3))),
       body_shareIndex = Some 0,
       body_encryptedShare = Some (EncObject
         (Some (toyEncode (toyPublicKey (replicate 32 1) @ toyPublicKey (replicate 32 2) @ replicate 24 5 @ [7, 7])))
         (Some (toyEncode (replicate 24 5)))),
       body_senderPublicKey = Some (toyEncode (toyPublicKey (replicate 32 2)))\<rparr>"

lemma sealedRequest_open:
  "openShare toyLib (replicate 32 1) (body_encryptedShare sealedRequest) (body_senderPublicKey sealedRequest)
   = Some [7, 7]"
  by (simp add: sealedRequest_def openShare_def truthy_def toyBoxOpen_toyBox)

lemma sealedRequest_reencrypt:
  "reencrypt toyLib [''alpha'' \<mapsto> \<lparr>node_publicKey = ''pk'', node_secretKey = replicate 32 1\<rparr>]
        (Some ''u'') sealedRequest (\<lambda>_. 9)
   = ReSuccess (Sealed (toyEncode (replicate 24 9))
        (toyEncode (toyPublicKey (replicate 32 3) @ toyPublicKey (replicate 32 1) @ replicate 24 9 @ [7, 7])))
       ''alpha'' ''pk''"
proof -
  have b: "body_shareIndex sealedRequest = Some 0"
    "body_recipientPublicKey sealedRequest = Some (toyEncode (toyPublicKey (replicate 32 3)))"
    by (simp_all add: sealedRequest_def)
  show ?thesis
    by (simp add: reencrypt_def nodeIdOf_def getRandomValues_def toyBoxOpen_toyBox
          sealedRequest_open b map_replicate_const)
qed

theorem reencrypt_placeholder_witness:
  "[''alpha'' \<mapsto> \<lparr>node_publicKey = ''pk'', node_secretKey = replicate 32 1\<rparr>]
       (nodeIdOf (Some 0)) = Some \<lparr>node_publicKey = ''pk'', node_secretKey = replicate 32 1\<rparr>
   \<and> openShare toyLib (replicate 32 1) (Some (EncString ''abc'')) (Some ''x'') = None
   \<and> reencrypt toyLib [''alpha'' \<mapsto> \<lparr>node_publicKey = ''pk'', node_secretKey = replicate 32 1\<rparr>]
        (Some ''u'')
        \<lparr>body_recipientPublicKey = Some ''r'', body_shareIndex = Some 0,
          body_encryptedShare = Some (EncString ''abc''), body_senderPublicKey = Some ''x''\<rparr>
        (\<lambda>_. 9)
      = ReSuccess (RawString ''placeholder_reencrypted_data'') ''alpha'' ''pk''
   \<and> reencrypt toyLib [''alpha'' \<mapsto> \<lparr>node_publicKey = ''pk'', node_secretKey = replicate 32 1\<rparr>]
        (Some ''u'') sealedRequest (\<lambda>_. 9)
      = ReSuccess (Sealed (toyEncode (replicate 24 9))
          (toyEncode (toyPublicKey (replicate 32 3) @ toyPublicKey (replicate 32 1) @ replicate 24 9 @ [7, 7])))
         ''alpha'' ''pk''
   \<and> (\<exists>share. openShare toyLib (replicate 32 1) (body_encryptedShare sealedRequest)
          (body_senderPublicKey sealedRequest) = Some share)
   \<and> truthy (body_recipientPublicKey sealedRequest)"
proof -
  let ?keys = "[''alpha'' \<mapsto> \<lparr>node_publicKey = ''pk'', node_secretKey = replicate 32 1\<rparr>]"
  let ?node = "\<lparr>node_publicKey = ''pk'', node_secretKey = replicate 32 1\<rparr>"
  let ?body = "\<lparr>body_recipientPublicKey = Some ''r'', body_shareIndex = Some 0,
          body_encryptedShare = Some (EncString ''abc''), body_senderPublicKey = Some ''x''\<rparr>"
  have n: "?keys (nodeIdOf (Some 0)) = Some ?node"
    by (simp add: nodeIdOf_def)
  have o: "openShare toyLib (replicate 32 1) (Some (EncString ''abc'')) (Some ''x'') = None"
    by (simp add: openShare_def toyDecode_def toyBoxOpen_def)
  have first: "reencrypt toyLib ?keys (Some ''u'') ?body (\<lambda>_. 9)
      = ReSuccess (RawString ''placeholder_reencrypted_data'') ''alpha'' ''pk''"
    using reencrypt_placeholder[where nodeKeys = ?keys and body = ?body and node = ?node
        and L = toyLib and address = "''u''" and r = "\<lambda>_. 9"] n o
    by (simp add: nodeIdOf_def)
  have n2: "?keys (nodeIdOf (body_shareIndex sealedRequest)) = Some ?node"
    by (simp add: nodeIdOf_def sealedRequest_def)
  have second: "(\<exists>share. openShare toyLib (replicate 32 1) (body_encryptedShare sealedRequest)
          (body_senderPublicKey sealedRequest) = Some share)
      \<and> truthy (body_recipientPublicKey sealedRequest)"
    using reencrypt_placeholder[where nodeKeys = ?keys and body = sealedRequest and node = ?node
        and L = toyLib and address = "''u''" and r = "\<lambda>_. 9"] n2 sealedRequest_reencrypt
    by auto
  show ?thesis using n o first sealedRequest_reencrypt second by simp
qed

subsection \<open>encryptForRecipient, decryptFromSender\<close>

text \<open>
  \<^verbatim>\<open>
  const nonce = nacl.randomBytes(nacl.box.nonceLength)
  const encrypted = nacl.box(data, nonce, recipientPublicKey, senderSecretKey)
  if (!encrypted) throw new Error('Encryption failed')
  \<close>
  The nonce is 24 bytes of the random source, drawn anew in each call. \<^verbatim>\<open>nacl.box\<close> returns
  an array or throws, so the test of \<^verbatim>\<open>!encrypted\<close> never fires.
\<close>

record boxedShare =
  boxed_nonce :: string
  boxed_encrypted :: string

definition encryptForRecipient :: "naclLib \<Rightarrow> bytes \<Rightarrow> string \<Rightarrow> string \<Rightarrow> rng \<Rightarrow> jsError + boxedShare" where
  "encryptForRecipient L data recipientPublicKeyBase64 senderSecretKeyBase64 r =
     (case decodeBase64 L recipientPublicKeyBase64 of Inl err \<Rightarrow> Inl err
      | Inr recipientPublicKey \<Rightarrow>
         (case decodeBase64 L senderSecretKeyBase64 of Inl err \<Rightarrow> Inl err
          | Inr senderSecretKey \<Rightarrow>
             (case getRandomValues 24 r of (nonce, r') \<Rightarrow>
                (case nacl_box L data nonce recipientPublicKey senderSecretKey of Inl err \<Rightarrow> Inl err
                 | Inr encrypted \<Rightarrow>
                     Inr \<lparr>boxed_nonce = encodeBase64 L nonce,
                          boxed_encrypted = encodeBase64 L encrypted\<rparr>))))"

text \<open>
  \<^verbatim>\<open>
  const decrypted = nacl.box.open(encrypted, nonce, senderPublicKey, recipientSecretKey)
  if (!decrypted) throw new Error('Decryption failed')
  return decrypted
  \<close>
\<close>

definition decryptFromSender :: "naclLib \<Rightarrow> string \<Rightarrow> string \<Rightarrow> string \<Rightarrow> string \<Rightarrow> jsError + bytes" where
  "decryptFromSender L encryptedBase64 nonceBase64 senderPublicKeyBase64 recipientSecretKeyBase64 =
     (case decodeBase64 L encryptedBase64 of Inl err \<Rightarrow> Inl err
      | Inr encrypted \<Rightarrow>
         (case decodeBase64 L nonceBase64 of Inl err \<Rightarrow> Inl err
          | Inr nonce \<Rightarrow>
             (case decodeBase64 L senderPublicKeyBase64 of Inl err \<Rightarrow> Inl err
              | Inr senderPublicKey \<Rightarrow>
                 (case decodeBase64 L recipientSecretKeyBase64 of Inl err \<Rightarrow> Inl err
                  | Inr recipientSecretKey \<Rightarrow>
                     (case nacl_box_open L encrypted nonce senderPublicKey recipientSecretKey of
                        Inl err \<Rightarrow> Inl err
                      | Inr None \<Rightarrow> Inl (JsError ''Decryption failed'')
                      | Inr (Some decrypted) \<Rightarrow> Inr decrypted)))))"

text \<open>
  What is assumed of the library. Decoding inverts encoding. A box made with the
  recipient's public key and the sender's secret key (32 bytes each, nonce of 24 bytes) is
  opened, with the same nonce, the sender's public key and the recipient's secret key, to
  the message. And \<^verbatim>\<open>nacl.box.open\<close> accepts nothing else: what it opens to a message, for a
  nonce and a pair of keys, is the box of that message for that nonce and those keys
  (the box is a function of message, nonce and keys, and opening checks its authenticator).
\<close>

definition naclContract :: "naclLib \<Rightarrow> bool" where
  "naclContract L \<longleftrightarrow>
     (\<forall>b. decodeBase64 L (encodeBase64 L b) = Inr b)
   \<and> (\<forall>m n skA skB. length n = 24 \<and> length skA = 32 \<and> length skB = 32 \<longrightarrow>
          (\<exists>c. nacl_box L m n (nacl_publicKey L skB) skA = Inr c
             \<and> nacl_box_open L c n (nacl_publicKey L skA) skB = Inr (Some m)))
   \<and> (\<forall>c n skA skB m. nacl_box_open L c n (nacl_publicKey L skA) skB = Inr (Some m) \<longrightarrow>
          nacl_box L m n (nacl_publicKey L skB) skA = Inr c)"

lemma decryptFromSender_encoded:
  assumes "\<forall>b. decodeBase64 L (encodeBase64 L b) = Inr b"
  shows "decryptFromSender L (encodeBase64 L c) (encodeBase64 L n) (encodeBase64 L pk) (encodeBase64 L sk)
       = (case nacl_box_open L c n pk sk of Inl err \<Rightarrow> Inl err
          | Inr None \<Rightarrow> Inl (JsError ''Decryption failed'')
          | Inr (Some decrypted) \<Rightarrow> Inr decrypted)"
  using assms by (simp add: decryptFromSender_def)


lemma split_box_layout:
  "take 32 c @ take 32 (drop 32 c) @ take 24 (drop 64 c) @ drop 88 (c :: bytes) = c"
proof -
  have a: "take 24 (drop 64 c) @ drop 88 c = drop 64 c"
    using append_take_drop_id[of 24 "drop 64 c"] by simp
  have b: "take 32 (drop 32 c) @ drop 64 c = drop 32 c"
    using append_take_drop_id[of 32 "drop 32 c"] by simp
  show ?thesis by (simp only: a b append_take_drop_id)
qed

lemma toyBoxOpen_genuine:
  assumes "toyBoxOpen c n (toyPublicKey skA) skB = Inr (Some m)"
  shows "toyBox m n (toyPublicKey skB) skA = Inr c"
proof -
  from assms have l: "length n = 24" "length skA = 32" "length skB = 32"
    and k: "take 32 c = toyPublicKey skB" "take 32 (drop 32 c) = toyPublicKey skA"
       "take 24 (drop 64 c) = n" "m = drop 88 c"
    by (auto simp: toyBoxOpen_def split: if_splits)
  have "toyPublicKey skB @ toyPublicKey skA @ n @ m = c"
    using split_box_layout[of c] by (simp only: k)
  with l show ?thesis by (simp add: toyBox_def)
qed

lemma toyLib_contract: "naclContract toyLib"
  unfolding naclContract_def
proof (intro conjI allI impI)
  fix b show "decodeBase64 toyLib (encodeBase64 toyLib b) = Inr b" by simp
next
  fix m n skA skB :: bytes
  assume "length n = 24 \<and> length skA = 32 \<and> length skB = 32"
  then show "\<exists>c. nacl_box toyLib m n (nacl_publicKey toyLib skB) skA = Inr c
             \<and> nacl_box_open toyLib c n (nacl_publicKey toyLib skA) skB = Inr (Some m)"
    by (simp add: toyBoxOpen_toyBox)
next
  fix c n skA skB m :: bytes
  assume "nacl_box_open toyLib c n (nacl_publicKey toyLib skA) skB = Inr (Some m)"
  then show "nacl_box toyLib m n (nacl_publicKey toyLib skB) skA = Inr c"
    by (simp add: toyBoxOpen_genuine)
qed


subsection \<open>POST /api/encrypt-shares\<close>

text \<open>
  One element of \<^verbatim>\<open>encryptedShares\<close>: \<^verbatim>\<open>{nodeId, encryptedShare: shareHex, error}\<close> when there is
  no node (\<^verbatim>\<open>nodeId\<close> is \<^verbatim>\<open>undefined\<close> from the fourth share on),
  \<^verbatim>\<open>{nodeId, encryptedShare: {nonce, encrypted, ephemeralPublicKey}}\<close>, or
  \<^verbatim>\<open>{nodeId, encryptedShare: shareHex}\<close>.
\<close>

datatype sealedShare =
    NodeNotFound "string option" string
  | Encapsulated string string string string
  | RawHex string string

datatype encryptSharesResponse = EsStatus nat string | EsSuccess "sealedShare list"

text \<open>\<^verbatim>\<open>nodeIds[i]\<close> for \<^verbatim>\<open>nodeIds = ['alpha', 'beta', 'gamma']\<close>\<close>

definition nodeIdAt :: "nat \<Rightarrow> string option" where
  "nodeIdAt i = (if i < 3 then Some ([''alpha'', ''beta'', ''gamma''] ! i) else None)"

text \<open>
  The callback of \<^verbatim>\<open>shares.map\<close>, for shares that are strings. \<open>hexBytes\<close> stands for
  \<^verbatim>\<open>new Uint8Array(shareHex.match(/.{1,2}/g).map(h => parseInt(h, 16)))\<close>, which is made of
  functions of the language only and throws when \<^verbatim>\<open>match\<close> returns \<^verbatim>\<open>null\<close>.
  \<^verbatim>\<open>nacl.box.keyPair()\<close> draws a secret key of 32 random bytes and derives its public key.
  The call of \<^verbatim>\<open>nacl.box\<close> is
  \<^verbatim>\<open>nacl.box(shareBytes, nonce, node.secretKey, ephemeral.secretKey)\<close>: its third parameter is
  the recipient's public key, its fourth the sender's secret key. The box is an array, so
  \<^verbatim>\<open>encrypted || shareBytes\<close> is \<^verbatim>\<open>encrypted\<close>.
\<close>

definition sealShare :: "naclLib \<Rightarrow> (string \<Rightarrow> jsError + bytes) \<Rightarrow> (string \<rightharpoonup> nodeKey) \<Rightarrow> string option
    \<Rightarrow> string \<Rightarrow> nat \<Rightarrow> rng \<Rightarrow> jsError + sealedShare \<times> rng" where
  "sealShare L hexBytes nodeKeys senderPublicKey shareHex i r =
     (case nodeIdAt i of
        None \<Rightarrow> Inr (NodeNotFound None shareHex, r)
      | Some nodeId \<Rightarrow>
         (case nodeKeys nodeId of
            None \<Rightarrow> Inr (NodeNotFound (Some nodeId) shareHex, r)
          | Some node \<Rightarrow>
             (case hexBytes shareHex of
                Inl err \<Rightarrow> Inl err
              | Inr shareBytes \<Rightarrow>
                 (case getRandomValues 24 r of (nonce, r1) \<Rightarrow>
                    if truthy senderPublicKey
                    then (case getRandomValues 32 r1 of (ephemeralSecretKey, r2) \<Rightarrow>
                            (case nacl_box L shareBytes nonce (node_secretKey node) ephemeralSecretKey of
                               Inl err \<Rightarrow> Inl err
                             | Inr encrypted \<Rightarrow>
                                 Inr (Encapsulated nodeId (encodeBase64 L nonce) (encodeBase64 L encrypted)
                                        (encodeBase64 L (nacl_publicKey L ephemeralSecretKey)), r2)))
                    else Inr (RawHex nodeId shareHex, r1)))))"

text \<open>\<^verbatim>\<open>shares.map((shareHex, i) => ...)\<close> from index \<open>i\<close> on; an exception ends the whole map.\<close>

fun sealShares :: "naclLib \<Rightarrow> (string \<Rightarrow> jsError + bytes) \<Rightarrow> (string \<rightharpoonup> nodeKey) \<Rightarrow> string option
    \<Rightarrow> nat \<Rightarrow> string list \<Rightarrow> rng \<Rightarrow> jsError + sealedShare list \<times> rng" where
  "sealShares L hexBytes nodeKeys senderPublicKey i [] r = Inr ([], r)"
| "sealShares L hexBytes nodeKeys senderPublicKey i (shareHex # rest) r =
     (case sealShare L hexBytes nodeKeys senderPublicKey shareHex i r of
        Inl err \<Rightarrow> Inl err
      | Inr (item, r') \<Rightarrow>
         (case sealShares L hexBytes nodeKeys senderPublicKey (i + 1) rest r' of
            Inl err \<Rightarrow> Inl err
          | Inr (items, r'') \<Rightarrow> Inr (item # items, r'')))"

text \<open>
  The handler. \<open>user\<close> is what \<^verbatim>\<open>requireAuth\<close> found; \<open>shares\<close> is \<open>None\<close> when the field is
  missing or not an array.
\<close>

definition encryptShares :: "naclLib \<Rightarrow> (string \<Rightarrow> jsError + bytes) \<Rightarrow> (string \<rightharpoonup> nodeKey) \<Rightarrow> string option
    \<Rightarrow> string list option \<Rightarrow> string option \<Rightarrow> rng \<Rightarrow> encryptSharesResponse" where
  "encryptShares L hexBytes nodeKeys user shares senderPublicKey r =
     (case user of None \<Rightarrow> EsStatus 401 ''Invalid or expired token''
      | Some address \<Rightarrow>
         (case shares of None \<Rightarrow> EsStatus 400 ''Shares array is required''
          | Some ss \<Rightarrow>
             (case sealShares L hexBytes nodeKeys senderPublicKey 0 ss r of
                Inl err \<Rightarrow> EsStatus 500 (errorMessage err)
              | Inr (encryptedShares, r') \<Rightarrow> EsSuccess encryptedShares)))"

lemma sealShares_append:
  "sealShares L hexBytes nodeKeys spk i (xs @ ys) r =
     (case sealShares L hexBytes nodeKeys spk i xs r of
        Inl err \<Rightarrow> Inl err
      | Inr (a, r1) \<Rightarrow>
         (case sealShares L hexBytes nodeKeys spk (i + length xs) ys r1 of
            Inl err \<Rightarrow> Inl err
          | Inr (b, r2) \<Rightarrow> Inr (a @ b, r2)))"
proof (induction xs arbitrary: i r)
  case Nil
  show ?case by (simp split: sum.splits prod.splits)
next
  case (Cons x xs)
  show ?case
    by (simp add: Cons.IH split: sum.splits prod.splits)
qed

lemma sealShares_length:
  "sealShares L hexBytes nodeKeys spk i xs r = Inr (items, r') \<Longrightarrow> length items = length xs"
proof (induction xs arbitrary: i r items)
  case Nil
  then show ?case by simp
next
  case (Cons x xs)
  then show ?case
    by (auto split: sum.splits prod.splits)
qed

lemma sealShares_nth:
  assumes "sealShares L hexBytes nodeKeys spk 0 ss r = Inr (items, r')" "i < length ss"
  shows "\<exists>ri ri'. sealShares L hexBytes nodeKeys spk 0 (take i ss) r = Inr (take i items, ri)
           \<and> sealShare L hexBytes nodeKeys spk (ss ! i) i ri = Inr (items ! i, ri')"
proof -
  have ss: "ss = take i ss @ (ss ! i # drop (Suc i) ss)"
    using assms(2) by (simp add: id_take_nth_drop[symmetric])
  have li: "length (take i ss) = i" using assms(2) by simp
  from assms(1) obtain a ri where a: "sealShares L hexBytes nodeKeys spk 0 (take i ss) r = Inr (a, ri)"
    and rest: "(case sealShares L hexBytes nodeKeys spk i (ss ! i # drop (Suc i) ss) ri of
            Inl err \<Rightarrow> Inl err
          | Inr (b, r2) \<Rightarrow> Inr (a @ b, r2)) = Inr (items, r')"
    using sealShares_append[of L hexBytes nodeKeys spk 0 "take i ss" "ss ! i # drop (Suc i) ss" r]
    unfolding ss[symmetric] li by (auto split: sum.splits prod.splits)
  from rest obtain item ri' b r2 where
    item: "sealShare L hexBytes nodeKeys spk (ss ! i) i ri = Inr (item, ri')"
    and items: "items = a @ item # b"
    by (auto split: sum.splits prod.splits)
  have la: "length a = i" using sealShares_length[OF a] li by simp
  have "take i items = a" "items ! i = item"
    using la by (simp_all add: items nth_append)
  with a item show ?thesis by blast
qed




section \<open>The symmetric payload cipher\<close>

text \<open>
  Source: \<^verbatim>\<open>encryptAES\<close> and \<^verbatim>\<open>decryptAES\<close> of the frontend. \<^verbatim>\<open>crypto.subtle.encrypt\<close> and
  \<^verbatim>\<open>crypto.subtle.decrypt\<close> with \<^verbatim>\<open>{name: 'AES-GCM', iv}\<close> are functions of the platform: they
  are parameters of the model, functions of the raw key, the IV and the data. Each returns
  the bytes of its result or the exception with which its promise is rejected; for
  \<^verbatim>\<open>decrypt\<close> that is the \<^verbatim>\<open>OperationError\<close> raised when the tag does not verify.
\<close>

record subtleCrypto =
  subtle_encrypt :: "bytes \<Rightarrow> bytes \<Rightarrow> bytes \<Rightarrow> jsError + bytes"
  subtle_decrypt :: "bytes \<Rightarrow> bytes \<Rightarrow> bytes \<Rightarrow> jsError + bytes"

text \<open>
  \<^verbatim>\<open>
  const iv = crypto.getRandomValues(new Uint8Array(12))
  const ciphertext = await crypto.subtle.encrypt({ name: 'AES-GCM', iv }, key, ...)
  const result = new Uint8Array(iv.length + ciphertext.byteLength)
  result.set(iv, 0)
  result.set(new Uint8Array(ciphertext), iv.length)
  \<close>
\<close>

definition encryptAES :: "subtleCrypto \<Rightarrow> bytes \<Rightarrow> bytes \<Rightarrow> rng \<Rightarrow> jsError + bytes" where
  "encryptAES S data key r =
     (case getRandomValues 12 r of (iv, r') \<Rightarrow>
        (case subtle_encrypt S key iv data of
           Inl err \<Rightarrow> Inl err
         | Inr ciphertext \<Rightarrow> Inr (iv @ ciphertext)))"

text \<open>
  \<^verbatim>\<open>
  const iv = data.slice(0, 12)
  const ciphertext = data.slice(12)
  const plaintext = await crypto.subtle.decrypt({ name: 'AES-GCM', iv }, key, ...)
  return new Uint8Array(plaintext)
  \<close>
  \<^verbatim>\<open>slice\<close> clamps to the length of the data.
\<close>

definition decryptAES :: "subtleCrypto \<Rightarrow> bytes \<Rightarrow> bytes \<Rightarrow> jsError + bytes" where
  "decryptAES S data key =
     (let iv = take 12 data;
          ciphertext = drop 12 data
      in case subtle_decrypt S key iv ciphertext of
           Inl err \<Rightarrow> Inl err
         | Inr plaintext \<Rightarrow> Inr plaintext)"

text \<open>
  What is assumed of AES-256-GCM. With a key of 32 bytes and an IV of 12, encryption
  returns a ciphertext 16 bytes longer than the plaintext (the tag) that decryption, with
  the same key and IV, turns back into the plaintext. And decryption accepts nothing else:
  what it decrypts to a plaintext, for a key and an IV, is the encryption of that plaintext
  with that key and IV (encryption is a function of key, IV and plaintext, and decryption
  checks the tag).
\<close>

definition gcmContract :: "subtleCrypto \<Rightarrow> bool" where
  "gcmContract S \<longleftrightarrow>
     (\<forall>key iv p. length key = 32 \<and> length iv = 12 \<longrightarrow>
          (\<exists>c. subtle_encrypt S key iv p = Inr c \<and> length c = length p + 16
             \<and> subtle_decrypt S key iv c = Inr p))
   \<and> (\<forall>key iv c p. subtle_decrypt S key iv c = Inr p \<longrightarrow> subtle_encrypt S key iv p = Inr c)"

subsection \<open>An instance of the cipher\<close>

text \<open>
  A cipher that leaves the plaintext in clear and appends a tag of 16 bytes made of the
  key, the IV and a checksum of the plaintext.
\<close>

definition toyTag :: "bytes \<Rightarrow> bytes \<Rightarrow> bytes \<Rightarrow> bytes" where
  "toyTag key iv p = map (\<lambda>b. b + sum_list p) (take 16 (key @ iv @ replicate 16 0))"

definition toyGcmEncrypt :: "bytes \<Rightarrow> bytes \<Rightarrow> bytes \<Rightarrow> jsError + bytes" where
  "toyGcmEncrypt key iv p = Inr (p @ toyTag key iv p)"

definition toyGcmDecrypt :: "bytes \<Rightarrow> bytes \<Rightarrow> bytes \<Rightarrow> jsError + bytes" where
  "toyGcmDecrypt key iv c =
     (if 16 \<le> length c \<and> drop (length c - 16) c = toyTag key iv (take (length c - 16) c)
      then Inr (take (length c - 16) c)
      else Inl (JsOperationError ''The operation failed for an operation-specific reason''))"

definition toySubtle :: subtleCrypto where
  "toySubtle = \<lparr>subtle_encrypt = toyGcmEncrypt, subtle_decrypt = toyGcmDecrypt\<rparr>"

lemma toySubtle_simps [simp]:
  "subtle_encrypt toySubtle = toyGcmEncrypt" "subtle_decrypt toySubtle = toyGcmDecrypt"
  by (simp_all add: toySubtle_def)

lemma toyTag_length [simp]: "length (toyTag key iv p) = 16"
  by (simp add: toyTag_def)

lemma toySubtle_contract: "gcmContract toySubtle"
  unfolding gcmContract_def
proof (intro conjI allI impI)
  fix key iv p :: bytes
  show "\<exists>c. subtle_encrypt toySubtle key iv p = Inr c \<and> length c = length p + 16
             \<and> subtle_decrypt toySubtle key iv c = Inr p"
    by (simp add: toyGcmEncrypt_def toyGcmDecrypt_def)
next
  fix key iv c p :: bytes
  assume "subtle_decrypt toySubtle key iv c = Inr p"
  then have p: "p = take (length c - 16) c"
    and t: "drop (length c - 16) c = toyTag key iv p"
    by (auto simp: toyGcmDecrypt_def split: if_splits)
  have "p @ toyTag key iv p = c"
    unfolding t[symmetric] unfolding p by (rule append_take_drop_id)
  then show "subtle_encrypt toySubtle key iv p = Inr c"
    by (simp add: toyGcmEncrypt_def)
qed



end
